theory Spec2Isabelle
  imports Main "HOL-Library.Char_ord" "HOL-Library.List_Lexorder" "HOL-Library.Multiset"
begin

section \<open>fork-off-substrate: a shallow embedding of \<open>src/index.js\<close>\<close>

text \<open>
  The script downloads the whole storage of a running chain through RPC into
  \<^verbatim>\<open>data/storage.json\<close> and copies the entries whose key starts with a selected
  prefix into a freshly generated chain specification. The embedding follows the
  source function by function. Strings are \<open>char list\<close>, JavaScript objects used as
  dictionaries are maps, the asynchronous calls to the node are functions of an
  environment record, and every loop that may run forever returns \<open>None\<close> when it
  does not return.
\<close>

subsection \<open>Strings\<close>

text \<open>\<^verbatim>\<open>s.startsWith(p)\<close>: the first \<open>length p\<close> characters of \<open>s\<close> are \<open>p\<close>.\<close>

definition startsWith :: "string \<Rightarrow> string \<Rightarrow> bool" where
  "startsWith s p = (take (length p) s = p)"

text \<open>\<^verbatim>\<open>xs.some(f)\<close> of a JavaScript array.\<close>

definition some :: "'a list \<Rightarrow> ('a \<Rightarrow> bool) \<Rightarrow> bool" where
  "some xs f = list_ex f xs"

text \<open>
  \<^verbatim>\<open>i.toString(16)\<close> for a non-negative integer: the lowercase hexadecimal digits,
  most significant first, and \<^verbatim>\<open>.padStart(2, "0")\<close>.
\<close>

definition hexDigit :: "nat \<Rightarrow> char" where
  "hexDigit d = ''0123456789abcdef'' ! (d mod 16)"

fun toString16 :: "nat \<Rightarrow> string" where
  "toString16 n = (if n < 16 then [hexDigit n] else toString16 (n div 16) @ [hexDigit (n mod 16)])"

declare toString16.simps [simp del]

definition padStart :: "string \<Rightarrow> nat \<Rightarrow> char \<Rightarrow> string" where
  "padStart s n c = replicate (n - length s) c @ s"

subsection \<open>Data\<close>

text \<open>
  A storage value as the RPC returns it and as JSON holds it: a hex string, or \<open>null\<close>
  when the key has no value at the queried block.
\<close>

datatype storage_value = Null | Str string

type_synonym entry = "string \<times> storage_value"

text \<open>
  A chain specification document. Only the members the script touches are named;
  \<open>rest\<close> is the text of all the others. \<open>raw_top\<close> is \<^verbatim>\<open>genesis.raw.top\<close>.
  \<open>protocolId\<close> may be \<open>null\<close> in a generated specification.
\<close>

record chain_spec =
  spec_name :: string
  spec_id :: string
  protocolId :: storage_value
  raw_top :: "string \<rightharpoonup> storage_value"
  rest :: string

text \<open>A pallet of the metadata: its name and whether \<^verbatim>\<open>module.storage\<close> is truthy.\<close>

record module =
  name :: string
  storage :: bool

subsection \<open>The prefix lists (lines 72-90)\<close>

definition prefixes :: "string list" where
  "prefixes = [''0x26aa394eea5630e07c48ae0c9558cef7b99d880ec681799c0cf30e8886371da9'']"

definition skippedModulesPrefix :: "string list" where
  "skippedModulesPrefix =
     [''Aura'', ''Grandpa'', ''Identity'', ''Session'', ''Substrate'', ''System'',
      ''Timestamp'', ''TransactionPayment'', ''ValidatorSet'']"

definition skippedPrefixes :: "string list" where
  "skippedPrefixes =
     [''0x30db7d3f47a0e1e95d08406497cbc95d183af6c2a611d10d3c89af247d1af0f8'',
      ''0x30db7d3f47a0e1e95d08406497cbc95de556acf9d5dcb43ba1cd73e9244a540c'',
      ''0x30db7d3f47a0e1e95d08406497cbc95d3a42a7dddf1b16a1dc1cd5c92d9cb0a5'']"

text \<open>
  Lines 164-172: every pallet with storage whose name is not skipped pushes the
  128-bit hash of its name. The hash \<^verbatim>\<open>xxhashAsHex\<close> belongs to a library and is a
  parameter.
\<close>

definition populate_prefixes ::
    "(string \<Rightarrow> nat \<Rightarrow> string) \<Rightarrow> module list \<Rightarrow> string list \<Rightarrow> string list" where
  "populate_prefixes xxhashAsHex modules ps =
     foldl (\<lambda>acc m.
        if storage m then
          (if name m \<notin> set skippedModulesPrefix
           then acc @ [xxhashAsHex (name m) 128] else acc)
        else acc) ps modules"

subsection \<open>Filter and insert (lines 216-227 and 232-241)\<close>

text \<open>The predicate of \<^verbatim>\<open>storage.filter\<close>.\<close>

definition selected :: "string list \<Rightarrow> string list \<Rightarrow> entry \<Rightarrow> bool" where
  "selected allowed excluded i =
     (some allowed (\<lambda>prefix. startsWith (fst i) prefix) \<and>
      \<not> some excluded (\<lambda>prefix. startsWith (fst i) prefix))"

text \<open>
  The \<^verbatim>\<open>forEach\<close> body: one assignment \<^verbatim>\<open>spec.genesis.raw.top[key] = value\<close> and
  one increment of the counter.
\<close>

definition insert_entry :: "chain_spec \<times> nat \<Rightarrow> entry \<Rightarrow> chain_spec \<times> nat" where
  "insert_entry acc kv =
     ((fst acc)\<lparr>raw_top := (raw_top (fst acc))(fst kv \<mapsto> snd kv)\<rparr>, snd acc + 1)"

definition migrate ::
    "string list \<Rightarrow> string list \<Rightarrow> entry list \<Rightarrow> chain_spec \<Rightarrow> chain_spec \<times> nat" where
  "migrate allowed excluded storage_entries spec =
     foldl insert_entry (spec, 0) (filter (selected allowed excluded) storage_entries)"

subsection \<open>The remote node and the state of the download\<close>

text \<open>
  The node is reached through \<^verbatim>\<open>provider.send\<close> and \<^verbatim>\<open>api.rpc\<close>. Its answers are
  functions of the request. Two further fields stand for what the event loop decides:
  \<open>arrival\<close> is the time at which the answer to the value request of a key arrives
  (the continuations after an \<^verbatim>\<open>await\<close> run in the order of arrival), and
  \<open>interleaving\<close> gives, for the 256 traversals started together under one prefix in
  \<^verbatim>\<open>QUICK_MODE\<close>, the order in which they advance.
\<close>

record env =
  pageSize :: nat
  QUICK_MODE :: bool
  chain_getBlockHash :: string
  state_getKeysPaged :: "string \<Rightarrow> nat \<Rightarrow> string option \<Rightarrow> string \<Rightarrow> string list"
  state_getStorage :: "string \<Rightarrow> string \<Rightarrow> storage_value"
  arrival :: "string \<Rightarrow> nat"
  interleaving :: "string \<Rightarrow> nat list"

datatype rpc_call =
    GetBlockHash
  | GetMetadata
  | GetKeysPaged string nat "string option" string
  | GetStorage string string

text \<open>
  What is written to the stream of \<^verbatim>\<open>data/storage.json\<close>, one token for each
  \<^verbatim>\<open>stream.write\<close>: \<open>Elems pairs\<close> is the text
  \<^verbatim>\<open>JSON.stringify(pairs).slice(1, -1)\<close>, the elements of the array without its
  brackets.
\<close>

datatype token = LBracket | Comma | Elems "entry list" | RBracket

text \<open>
  The globals \<^verbatim>\<open>separator\<close> and \<^verbatim>\<open>chunksFetched\<close>, the stream, and the requests sent
  to the node so far, in the order of sending.
\<close>

record fetch_state =
  stream :: "token list"
  separator :: bool
  chunksFetched :: nat
  rpc_log :: "rpc_call list"

subsection \<open>One page (lines 279-303)\<close>

text \<open>
  Lines 287-293: the value requests are sent in the order of \<open>keys\<close>; each
  continuation pushes its pair when its answer arrives. \<open>sort_key\<close> is stable: answers
  arriving together keep the order of sending.
\<close>

definition fetch_pairs :: "env \<Rightarrow> string \<Rightarrow> string list \<Rightarrow> entry list" where
  "fetch_pairs e at keys =
     map (\<lambda>key. (key, state_getStorage e key at)) (sort_key (arrival e) keys)"

text \<open>Lines 295-296.\<close>

definition write_pairs :: "entry list \<Rightarrow> fetch_state \<Rightarrow> fetch_state" where
  "write_pairs pairs s =
     (let s1 = (if separator s then s\<lparr>stream := stream s @ [Comma]\<rparr>
                else s\<lparr>separator := True\<rparr>)
      in s1\<lparr>stream := stream s1 @ [Elems pairs]\<rparr>)"

text \<open>
  The body of \<^verbatim>\<open>while (true)\<close>: the new \<^verbatim>\<open>startKey\<close>, the new state, and whether the
  loop breaks.
\<close>

definition leaf_iter ::
    "env \<Rightarrow> string \<Rightarrow> string \<Rightarrow> string option \<Rightarrow> fetch_state \<Rightarrow> string option \<times> fetch_state \<times> bool" where
  "leaf_iter e prefix at startKey s =
     (let keys = state_getKeysPaged e prefix (pageSize e) startKey at;
          s1 = s\<lparr>rpc_log := rpc_log s @ [GetKeysPaged prefix (pageSize e) startKey at]\<rparr>
      in if length keys > 0 then
           (let s2 = s1\<lparr>rpc_log := rpc_log s1 @ map (\<lambda>key. GetStorage key at) keys\<rparr>;
                pairs = fetch_pairs e at keys
            in (Some (last keys), write_pairs pairs s2, length keys < pageSize e))
         else (startKey, s1, length keys < pageSize e))"

partial_function (option) leaf_loop ::
    "env \<Rightarrow> string \<Rightarrow> string \<Rightarrow> string option \<Rightarrow> fetch_state \<Rightarrow> fetch_state option" where
  "leaf_loop e prefix at startKey s =
     (case leaf_iter e prefix at startKey s of
        (startKey', s', brk) \<Rightarrow>
          if brk then Some s' else leaf_loop e prefix at startKey' s')"

text \<open>Line 305: \<^verbatim>\<open>progressBar.update(++chunksFetched)\<close>.\<close>

definition chunk_done :: "fetch_state \<Rightarrow> fetch_state" where
  "chunk_done s = s\<lparr>chunksFetched := chunksFetched s + 1\<rparr>"

text \<open>The branch \<^verbatim>\<open>levelsRemaining <= 0\<close> (lines 276-307).\<close>

definition fetch_leaf :: "env \<Rightarrow> string \<Rightarrow> string \<Rightarrow> fetch_state \<Rightarrow> fetch_state option" where
  "fetch_leaf e prefix at s = map_option chunk_done (leaf_loop e prefix at None s)"

subsection \<open>The traversal (lines 309-332)\<close>

text \<open>A \<^verbatim>\<open>for\<close> loop whose body is awaited: it stops where the body does not return.\<close>

fun for_each :: "'a list \<Rightarrow> ('a \<Rightarrow> 's \<Rightarrow> 's option) \<Rightarrow> 's \<Rightarrow> 's option" where
  "for_each [] f s = Some s"
| "for_each (x # xs) f s = (case f x s of None \<Rightarrow> None | Some s' \<Rightarrow> for_each xs f s')"

text \<open>\<^verbatim>\<open>prefix + i.toString(16).padStart(2, "0")\<close>.\<close>

definition child :: "string \<Rightarrow> nat \<Rightarrow> string" where
  "child prefix i = prefix @ padStart (toString16 i) 2 (CHR ''0'')"

text \<open>
  \<^verbatim>\<open>QUICK_MODE\<close>, lines 311-322. The 256 calls are started one after the other and
  awaited together. Each is a traversal of one leaf: its prefix, its \<^verbatim>\<open>startKey\<close>, and
  whether it has returned. The code between two \<^verbatim>\<open>await\<close>s runs without interruption,
  so the traversals interleave by whole iterations of the loop. \<open>run_schedule\<close> advances
  the traversals in the order given; an index that names no running traversal is
  skipped. When the list is used up, the traversals still running are completed in the
  order of their indices, so every list describes a complete run.
\<close>

type_synonym task = "string \<times> string option \<times> bool"

definition task_step :: "env \<Rightarrow> string \<Rightarrow> task \<Rightarrow> fetch_state \<Rightarrow> task \<times> fetch_state" where
  "task_step e at t s =
     (case t of (prefix, startKey, fin) \<Rightarrow>
        (case leaf_iter e prefix at startKey s of
           (startKey', s', brk) \<Rightarrow>
             if brk then ((prefix, startKey', True), chunk_done s')
             else ((prefix, startKey', False), s')))"

fun run_schedule :: "env \<Rightarrow> string \<Rightarrow> nat list \<Rightarrow> task list \<Rightarrow> fetch_state \<Rightarrow> task list \<times> fetch_state" where
  "run_schedule e at [] ts s = (ts, s)"
| "run_schedule e at (i # sched) ts s =
     (if i < length ts \<and> \<not> snd (snd (ts ! i)) then
        (case task_step e at (ts ! i) s of
           (t', s') \<Rightarrow> run_schedule e at sched (ts[i := t']) s')
      else run_schedule e at sched ts s)"

definition task_finish :: "env \<Rightarrow> string \<Rightarrow> task \<Rightarrow> fetch_state \<Rightarrow> fetch_state option" where
  "task_finish e at t s =
     (case t of (prefix, startKey, fin) \<Rightarrow>
        if fin then Some s else map_option chunk_done (leaf_loop e prefix at startKey s))"

definition fan_out :: "env \<Rightarrow> string \<Rightarrow> string \<Rightarrow> fetch_state \<Rightarrow> fetch_state option" where
  "fan_out e prefix at s =
     (let ts = map (\<lambda>i. (child prefix i, None, False)) [0..<256]
      in case run_schedule e at (interleaving e prefix) ts s of
           (ts', s') \<Rightarrow> for_each ts' (task_finish e at) s')"

function fetchChunks :: "env \<Rightarrow> string \<Rightarrow> int \<Rightarrow> string \<Rightarrow> fetch_state \<Rightarrow> fetch_state option" where
  "fetchChunks e prefix levelsRemaining at s =
     (if levelsRemaining \<le> 0 then fetch_leaf e prefix at s
      else if QUICK_MODE e \<and> levelsRemaining = 1 then fan_out e prefix at s
      else for_each [0..<256]
             (\<lambda>i. fetchChunks e (child prefix i) (levelsRemaining - 1) at) s)"
  by pat_completeness auto
termination
  by (relation "measure (\<lambda>(e, prefix, levelsRemaining, at, s). nat levelsRemaining)") auto

declare fetchChunks.simps [simp del]

subsection \<open>Files\<close>

text \<open>
  The files the script reads and writes, by path. A JSON file is held as the value
  \<^verbatim>\<open>JSON.parse\<close> reads from it, except the snapshot, which is held as the tokens
  written to its stream (a run that was interrupted leaves an unfinished array).
  \<open>Blob\<close> is a binary file and \<open>Text\<close> a text file that is not JSON.
\<close>

datatype content = Blob "nat list" | Text string | Snapshot "token list" | Spec chain_spec

type_synonym disk = "string \<rightharpoonup> content"

definition binaryPath :: string where "binaryPath = ''data/binary''"
definition wasmPath :: string where "wasmPath = ''data/runtime.wasm''"
definition hexPath :: string where "hexPath = ''data/runtime.hex''"
definition originalSpecPath :: string where "originalSpecPath = ''data/genesis.json''"
definition forkedSpecPath :: string where "forkedSpecPath = ''data/fork.json''"
definition storagePath :: string where "storagePath = ''data/storage.json''"

datatype error = ENOENT string | SyntaxError | TypeError | CommandFailed

text \<open>
  \<^verbatim>\<open>JSON.parse\<close> of the snapshot: \<^verbatim>\<open>[\<close>, the batches separated by commas, \<^verbatim>\<open>]\<close>.
  A batch is never empty (an empty one would leave two commas in a row).
\<close>

fun parse_elems :: "token list \<Rightarrow> entry list option" where
  "parse_elems [RBracket] = Some []"
| "parse_elems (Comma # Elems ps # ts) =
     (if ps = [] then None else map_option ((@) ps) (parse_elems ts))"
| "parse_elems ts = None"

fun parse_snapshot :: "token list \<Rightarrow> entry list option" where
  "parse_snapshot [LBracket, RBracket] = Some []"
| "parse_snapshot (LBracket # Elems ps # ts) =
     (if ps = [] then None else map_option ((@) ps) (parse_elems ts))"
| "parse_snapshot ts = None"

text \<open>\<^verbatim>\<open>JSON.stringify\<close> of an array of pairs, as tokens.\<close>

definition stringify_snapshot :: "entry list \<Rightarrow> token list" where
  "stringify_snapshot es = (if es = [] then [LBracket, RBracket] else [LBracket, Elems es, RBracket])"

text \<open>\<^verbatim>\<open>JSON.parse(fs.readFileSync(storagePath))\<close> followed by \<^verbatim>\<open>storage.filter\<close>.\<close>

definition read_storage :: "disk \<Rightarrow> string \<Rightarrow> error + entry list" where
  "read_storage d path =
     (case d path of
        None \<Rightarrow> Inl (ENOENT path)
      | Some (Snapshot ts) \<Rightarrow>
          (case parse_snapshot ts of None \<Rightarrow> Inl SyntaxError | Some es \<Rightarrow> Inr es)
      | Some (Spec sp) \<Rightarrow> Inl TypeError
      | Some other \<Rightarrow> Inl SyntaxError)"

text \<open>
  Reading a specification. A snapshot where a specification is expected is an array:
  the script fails on it with a \<open>TypeError\<close> when it reaches \<^verbatim>\<open>genesis.raw\<close>.
\<close>

definition read_spec :: "disk \<Rightarrow> string \<Rightarrow> error + chain_spec" where
  "read_spec d path =
     (case d path of
        None \<Rightarrow> Inl (ENOENT path)
      | Some (Spec sp) \<Rightarrow> Inr sp
      | Some (Snapshot ts) \<Rightarrow>
          (case parse_snapshot ts of None \<Rightarrow> Inl SyntaxError | Some es \<Rightarrow> Inl TypeError)
      | Some other \<Rightarrow> Inl SyntaxError)"

subsection \<open>The acquisition (lines 138-160)\<close>

definition acquisition :: "env \<Rightarrow> int \<Rightarrow> disk \<Rightarrow> rpc_call list \<Rightarrow> (disk \<times> rpc_call list) option" where
  "acquisition e chunksLevel d log =
     (if d storagePath \<noteq> None then Some (d, log)
      else
        (let at = chain_getBlockHash e;
             s0 = \<lparr>stream = [LBracket], separator = False, chunksFetched = 0,
                   rpc_log = log @ [GetBlockHash]\<rparr>
         in case fetchChunks e ''0x'' chunksLevel at s0 of
              None \<Rightarrow> None
            | Some s \<Rightarrow> Some (d(storagePath \<mapsto> Snapshot (stream s @ [RBracket])), rpc_log s)))"

subsection \<open>The merge (lines 207-265)\<close>

text \<open>
  \<^verbatim>\<open>fixParachinStates\<close> (lines 92-97). \<^verbatim>\<open>api.query.parasScheduler.sessionStartBlock.key()\<close>
  is the argument \<open>key\<close>: \<open>None\<close> when the chain has no such pallet. The access then
  throws inside the \<^verbatim>\<open>async\<close> function; the promise it returns is rejected, nobody
  awaits it, and \<^verbatim>\<open>main\<close> goes on with the document as it is.
\<close>

definition fixParachinStates :: "string option \<Rightarrow> chain_spec \<Rightarrow> chain_spec" where
  "fixParachinStates key forkedSpec =
     (case key of
        None \<Rightarrow> forkedSpec
      | Some k \<Rightarrow> foldl (\<lambda>sp k. sp\<lparr>raw_top := (raw_top sp)(k := None)\<rparr>) forkedSpec [k])"

text \<open>
  Line 118: \<^verbatim>\<open>hexdump -ve '/1 "%02x"'\<close> prints every byte with two lowercase
  hexadecimal digits and nothing else.
\<close>

definition hexdump :: "nat list \<Rightarrow> string" where
  "hexdump bytes = concat (map (\<lambda>b. padStart (toString16 b) 2 (CHR ''0'')) bytes)"

text \<open>\<^verbatim>\<open>String.prototype.trim\<close> on the white space of ASCII.\<close>

definition isSpace :: "char \<Rightarrow> bool" where
  "isSpace c = (c \<in> set [CHR '' '', CHR 0x09, CHR 0x0A, CHR 0x0B, CHR 0x0C, CHR 0x0D])"

definition trim :: "string \<Rightarrow> string" where
  "trim s = rev (dropWhile isSpace (rev (dropWhile isSpace s)))"

definition code_key :: string where
  "code_key = ''0x3a636f6465''"

text \<open>Lines 262-263.\<close>

definition set_code :: "string \<Rightarrow> chain_spec \<Rightarrow> chain_spec" where
  "set_code hex forkedSpec =
     forkedSpec\<lparr>raw_top := (raw_top forkedSpec)(code_key \<mapsto> Str (''0x'' @ trim hex))\<rparr>"

text \<open>Lines 211-214.\<close>

definition rename :: "chain_spec \<Rightarrow> chain_spec \<Rightarrow> chain_spec" where
  "rename originalSpec forkedSpec =
     forkedSpec\<lparr>spec_name := spec_name originalSpec @ ''-fork'',
                spec_id := spec_id originalSpec @ ''-fork'',
                protocolId := protocolId originalSpec\<rparr>"

text \<open>
  Lines 229-248, the optional second target. When the file holds an array instead of
  a specification, \<^verbatim>\<open>paraSpec.genesis\<close> is undefined: the first selected entry
  throws, and without one the array is written back.
\<close>

definition merge_parachain ::
    "string \<Rightarrow> string list \<Rightarrow> string list \<Rightarrow> entry list \<Rightarrow> disk \<Rightarrow> error + disk \<times> nat option" where
  "merge_parachain parachainSpecPath allowed excluded storage_entries d =
     (if parachainSpecPath \<noteq> [] then
        (case d parachainSpecPath of
           None \<Rightarrow> Inl (ENOENT parachainSpecPath)
         | Some (Spec paraSpec) \<Rightarrow>
             (case migrate allowed excluded storage_entries paraSpec of
                (paraSpec', paraMigrated) \<Rightarrow>
                  Inr (d(parachainSpecPath \<mapsto> Spec paraSpec'), Some paraMigrated))
         | Some (Snapshot ts) \<Rightarrow>
             (case parse_snapshot ts of
                None \<Rightarrow> Inl SyntaxError
              | Some es \<Rightarrow>
                  if filter (selected allowed excluded) storage_entries = []
                  then Inr (d(parachainSpecPath \<mapsto> Snapshot (stringify_snapshot es)), Some 0)
                  else Inl TypeError)
         | Some other \<Rightarrow> Inl SyntaxError)
      else Inr (d, None))"

record merged =
  files :: disk
  migrated_storages :: nat
  paraMigrated :: "nat option"

definition merge ::
    "string \<Rightarrow> string option \<Rightarrow> string list \<Rightarrow> string list \<Rightarrow> disk \<Rightarrow> error + merged" where
  "merge parachainSpecPath key allowed excluded d =
     (case read_storage d storagePath of Inl err \<Rightarrow> Inl err | Inr storage_entries \<Rightarrow>
      case read_spec d originalSpecPath of Inl err \<Rightarrow> Inl err | Inr originalSpec \<Rightarrow>
      case read_spec d forkedSpecPath of Inl err \<Rightarrow> Inl err | Inr forkedSpec \<Rightarrow>
      case migrate allowed excluded storage_entries (rename originalSpec forkedSpec) of
        (forkedSpec1, n) \<Rightarrow>
      case merge_parachain parachainSpecPath allowed excluded storage_entries d of
        Inl err \<Rightarrow> Inl err | Inr (d1, pn) \<Rightarrow>
      case d1 hexPath of
        Some (Text hex) \<Rightarrow>
          Inr \<lparr>files = d1(forkedSpecPath \<mapsto> Spec (set_code hex (fixParachinStates key forkedSpec1))),
               migrated_storages = n, paraMigrated = pn\<rparr>
      | Some other \<Rightarrow> Inl TypeError
      | None \<Rightarrow> Inl (ENOENT hexPath))"

subsection \<open>\<^verbatim>\<open>main\<close> (lines 99-271)\<close>

text \<open>
  What \<^verbatim>\<open>main\<close> takes from outside: the node, the pallets of its metadata, the hash
  of the library, the key of \<^verbatim>\<open>parasScheduler.sessionStartBlock\<close>, the node binary
  run with \<^verbatim>\<open>build-spec\<close> (\<open>None\<close> when the command fails), the bytes of a file that
  is not a binary one, and the variables of the process environment.
\<close>

record world =
  node :: env
  pallets :: "module list"
  xxhashAsHex :: "string \<Rightarrow> nat \<Rightarrow> string"
  sessionStartBlock_key :: "string option"
  build_spec :: "string list \<Rightarrow> chain_spec option"
  encoding :: "content \<Rightarrow> nat list"
  chunksLevel :: int
  originalChain :: string
  forkChain :: string
  parachainSpecPath :: string

record finished =
  exit_code :: nat
  disk_after :: disk
  requests :: "rpc_call list"

definition content_bytes :: "(content \<Rightarrow> nat list) \<Rightarrow> content \<Rightarrow> nat list" where
  "content_bytes enc c = (case c of Blob bytes \<Rightarrow> bytes | other \<Rightarrow> enc other)"

definition build_spec_args :: "string \<Rightarrow> string list \<Rightarrow> string list" where
  "build_spec_args chain dflt =
     (if chain = [] then [''build-spec''] @ dflt @ [''--raw'', ''--disable-default-bootnode'']
      else [''build-spec'', ''--chain'', chain, ''--raw'', ''--disable-default-bootnode''])"

definition main :: "world \<Rightarrow> disk \<Rightarrow> (error + finished) option" where
  "main w d =
     (if d binaryPath = None then Some (Inr \<lparr>exit_code = 1, disk_after = d, requests = []\<rparr>)
      else case d wasmPath of
        None \<Rightarrow> Some (Inr \<lparr>exit_code = 1, disk_after = d, requests = []\<rparr>)
      | Some wasm \<Rightarrow>
          (let d1 = d(hexPath \<mapsto> Text (hexdump (content_bytes (encoding w) wasm)))
           in case acquisition (node w) (chunksLevel w) d1 [] of
                None \<Rightarrow> None
              | Some (d2, log) \<Rightarrow>
                  (let allowed = populate_prefixes (xxhashAsHex w) (pallets w) prefixes
                   in case build_spec w (build_spec_args (originalChain w) []) of
                        None \<Rightarrow> Some (Inl CommandFailed)
                      | Some original \<Rightarrow>
                     (case build_spec w (build_spec_args (forkChain w) [''--dev'']) of
                        None \<Rightarrow> Some (Inl CommandFailed)
                      | Some forked \<Rightarrow>
                     (case merge (parachainSpecPath w) (sessionStartBlock_key w) allowed
                             skippedPrefixes
                             (d2(originalSpecPath \<mapsto> Spec original, forkedSpecPath \<mapsto> Spec forked)) of
                        Inl err \<Rightarrow> Some (Inl err)
                      | Inr m \<Rightarrow>
                          Some (Inr \<lparr>exit_code = 0, disk_after = files m,
                                     requests = log @ [GetMetadata]\<rparr>))))))"

subsection \<open>Notions used to state the properties\<close>

text \<open>The pairs held by a stream of tokens, in the order of writing.\<close>

fun entries :: "token list \<Rightarrow> entry list" where
  "entries [] = []"
| "entries (Elems ps # ts) = ps @ entries ts"
| "entries (t # ts) = entries ts"

text \<open>The listing requests of a log, and the value requests.\<close>

fun is_listing :: "rpc_call \<Rightarrow> bool" where
  "is_listing (GetKeysPaged prefix n startKey at) = True"
| "is_listing c = False"

definition listing_calls :: "rpc_call list \<Rightarrow> rpc_call list" where
  "listing_calls log = filter is_listing log"

text \<open>
  The pages one traversal of a leaf fetches: for every iteration of the loop the
  cursor sent and the keys received. \<open>None\<close> when the loop does not end.
\<close>

partial_function (option) leaf_pages ::
    "env \<Rightarrow> string \<Rightarrow> string \<Rightarrow> string option \<Rightarrow> (string option \<times> string list) list option" where
  "leaf_pages e prefix at startKey =
     (let keys = state_getKeysPaged e prefix (pageSize e) startKey at
      in if length keys < pageSize e then Some [(startKey, keys)]
         else Option.bind
                (leaf_pages e prefix at (if length keys > 0 then Some (last keys) else startKey))
                (\<lambda>pgs. Some ((startKey, keys) # pgs)))"

text \<open>What one iteration does to the state, given the cursor and the keys received.\<close>

definition page_effect ::
    "env \<Rightarrow> string \<Rightarrow> string \<Rightarrow> string option \<times> string list \<Rightarrow> fetch_state \<Rightarrow> fetch_state" where
  "page_effect e prefix at pg s =
     (let s1 = s\<lparr>rpc_log := rpc_log s @ [GetKeysPaged prefix (pageSize e) (fst pg) at]\<rparr>
      in if snd pg = [] then s1
         else write_pairs (fetch_pairs e at (snd pg))
                (s1\<lparr>rpc_log := rpc_log s1 @ map (\<lambda>key. GetStorage key at) (snd pg)\<rparr>))"

definition apply_pages ::
    "env \<Rightarrow> string \<Rightarrow> string \<Rightarrow> (string option \<times> string list) list \<Rightarrow> fetch_state \<Rightarrow> fetch_state" where
  "apply_pages e prefix at pgs s = foldl (\<lambda>s pg. page_effect e prefix at pg s) s pgs"

text \<open>
  The cursor of the \<open>i\<close>-th listing request of a traversal and the keys it receives,
  whether or not the loop ever ends.
\<close>

definition next_cursor :: "env \<Rightarrow> string \<Rightarrow> string \<Rightarrow> string option \<Rightarrow> string option" where
  "next_cursor e prefix at startKey =
     (let keys = state_getKeysPaged e prefix (pageSize e) startKey at
      in if length keys > 0 then Some (last keys) else startKey)"

fun cursor_at :: "env \<Rightarrow> string \<Rightarrow> string \<Rightarrow> string option \<Rightarrow> nat \<Rightarrow> string option" where
  "cursor_at e prefix at startKey 0 = startKey"
| "cursor_at e prefix at startKey (Suc i) = cursor_at e prefix at (next_cursor e prefix at startKey) i"

definition page_at :: "env \<Rightarrow> string \<Rightarrow> string \<Rightarrow> string option \<Rightarrow> nat \<Rightarrow> string list" where
  "page_at e prefix at startKey i =
     state_getKeysPaged e prefix (pageSize e) (cursor_at e prefix at startKey i) at"

text \<open>
  Modelled from the spec: the node's answer to \<^verbatim>\<open>state_getKeysPaged\<close>, which is not
  part of this repository. The store holds the keys \<open>all_keys\<close> at the queried block,
  in ascending order; a request returns at most \<open>n\<close> keys that start with the
  prefix and follow the cursor, in that order (section 4.2 and section 6).
\<close>

definition follows :: "string option \<Rightarrow> string \<Rightarrow> bool" where
  "follows cursor key = (case cursor of None \<Rightarrow> True | Some c \<Rightarrow> c < key)"

definition store_getKeysPaged ::
    "string list \<Rightarrow> string \<Rightarrow> nat \<Rightarrow> string option \<Rightarrow> string \<Rightarrow> string list" where
  "store_getKeysPaged all_keys prefix n cursor at =
     take n (filter (\<lambda>key. startsWith key prefix \<and> follows cursor key) all_keys)"

text \<open>The keys of the store under a prefix.\<close>

definition keys_under :: "string list \<Rightarrow> string \<Rightarrow> string list" where
  "keys_under all_keys prefix = filter (\<lambda>key. startsWith key prefix) all_keys"

text \<open>
  The shape of the pages of a traversal: every request after the first carries the
  last key of the page before it, and every page but the last is full.
\<close>

fun cursors_follow :: "(string option \<times> string list) list \<Rightarrow> bool" where
  "cursors_follow (pg # pg' # pgs) = (fst pg' = Some (last (snd pg)) \<and> cursors_follow (pg' # pgs))"
| "cursors_follow pgs = True"

fun full_then_short :: "nat \<Rightarrow> (string option \<times> string list) list \<Rightarrow> bool" where
  "full_then_short p [] = False"
| "full_then_short p [pg] = (length (snd pg) < p)"
| "full_then_short p (pg # pgs) = (length (snd pg) = p \<and> full_then_short p pgs)"

text \<open>
  All strings of \<open>n\<close> bytes in ascending order, and the leaf prefixes of a traversal of
  depth \<open>levelsRemaining\<close> in the order in which lines 324-331 reach them.
\<close>

fun byte_strings :: "nat \<Rightarrow> nat list list" where
  "byte_strings 0 = [[]]"
| "byte_strings (Suc n) = concat (map (\<lambda>b. map ((#) b) (byte_strings n)) [0..<256])"

function leaf_prefixes :: "string \<Rightarrow> int \<Rightarrow> string list" where
  "leaf_prefixes prefix levelsRemaining =
     (if levelsRemaining \<le> 0 then [prefix]
      else concat (map (\<lambda>i. leaf_prefixes (child prefix i) (levelsRemaining - 1)) [0..<256]))"
  by pat_completeness auto
termination
  by (relation "measure (\<lambda>(prefix, levelsRemaining). nat levelsRemaining)") auto

declare leaf_prefixes.simps [simp del]


text \<open>
  The forked specification \<^verbatim>\<open>main\<close> writes at line 265, from the snapshot, the two
  generated specifications, the key of \<^verbatim>\<open>fixParachinStates\<close> and the text of
  \<^verbatim>\<open>runtime.hex\<close>.
\<close>

definition final_spec ::
    "string option \<Rightarrow> string \<Rightarrow> string list \<Rightarrow> string list \<Rightarrow> entry list \<Rightarrow> chain_spec \<Rightarrow> chain_spec \<Rightarrow> chain_spec" where
  "final_spec key hex allowed excluded st original forked =
     set_code hex (fixParachinStates key (fst (migrate allowed excluded st (rename original forked))))"

text \<open>The value of a key in \<^verbatim>\<open>genesis.raw.top\<close> of the specification a file holds.\<close>

definition top_at :: "disk \<Rightarrow> string \<Rightarrow> string \<Rightarrow> storage_value option" where
  "top_at d path key = (case d path of Some (Spec sp) \<Rightarrow> raw_top sp key | other \<Rightarrow> None)"

text \<open>
  The pairs of the keys of some pages with their values, as a multiset, and the pairs
  a traversal of a leaf finds (none when it does not end).
\<close>

definition pairs_of :: "env \<Rightarrow> string \<Rightarrow> (string option \<times> string list) list \<Rightarrow> entry multiset" where
  "pairs_of e at pgs = mset (concat (map (\<lambda>pg. map (\<lambda>key. (key, state_getStorage e key at)) (snd pg)) pgs))"

definition leaf_entries :: "env \<Rightarrow> string \<Rightarrow> string \<Rightarrow> entry multiset" where
  "leaf_entries e at p = (case leaf_pages e p at None of None \<Rightarrow> {#} | Some pgs \<Rightarrow> pairs_of e at pgs)"

text \<open>
  The tokens of an unfinished array of batches, and the streams the download writes:
  such tokens, with \<^verbatim>\<open>separator\<close> set once a batch has been written.
\<close>

definition tokens_of :: "entry list list \<Rightarrow> token list" where
  "tokens_of bs =
     (case bs of [] \<Rightarrow> [LBracket]
      | b # bs' \<Rightarrow> LBracket # Elems b # concat (map (\<lambda>b. [Comma, Elems b]) bs'))"

definition wf_stream :: "fetch_state \<Rightarrow> bool" where
  "wf_stream s \<longleftrightarrow> (\<exists>bs. [] \<notin> set bs \<and> stream s = tokens_of bs \<and> (separator s \<longleftrightarrow> bs \<noteq> []))"

text \<open>
  \<open>adds f ok m n\<close>: from every state, \<open>f\<close> returns exactly when \<open>ok\<close> holds, and then
  it has written the pairs \<open>m\<close>, counted \<open>n\<close> chunks and kept the stream well formed.
\<close>

definition adds :: "(fetch_state \<Rightarrow> fetch_state option) \<Rightarrow> bool \<Rightarrow> entry multiset \<Rightarrow> nat \<Rightarrow> bool" where
  "adds f ok m n \<longleftrightarrow>
     (\<forall>s. if ok then
             (\<exists>s'. f s = Some s'
                \<and> mset (entries (stream s')) = mset (entries (stream s)) + m
                \<and> chunksFetched s' = chunksFetched s + n
                \<and> (wf_stream s \<longrightarrow> wf_stream s'))
           else f s = None)"

text \<open>
  For a traversal started in \<^verbatim>\<open>QUICK_MODE\<close>: whether it ends, the pairs it has still to
  write, and the chunk it has still to count.
\<close>

definition task_ok :: "env \<Rightarrow> string \<Rightarrow> task \<Rightarrow> bool" where
  "task_ok e at t = (case t of (p, c, fin) \<Rightarrow> fin \<or> leaf_pages e p at c \<noteq> None)"

definition task_entries :: "env \<Rightarrow> string \<Rightarrow> task \<Rightarrow> entry multiset" where
  "task_entries e at t =
     (case t of (p, c, fin) \<Rightarrow>
        if fin then {#}
        else (case leaf_pages e p at c of None \<Rightarrow> {#} | Some pgs \<Rightarrow> pairs_of e at pgs))"

definition task_count :: "task \<Rightarrow> nat" where
  "task_count t = (if snd (snd t) then 0 else 1)"

subsection \<open>A small chain, for the examples\<close>

definition example_original :: chain_spec where
  "example_original =
     \<lparr>spec_name = ''live'', spec_id = ''live_net'', protocolId = Str ''lv'',
      raw_top = [''0xcc00'' \<mapsto> Str ''0x10''], rest = ''bootNodes''\<rparr>"

definition example_forked :: chain_spec where
  "example_forked =
     \<lparr>spec_name = ''Development'', spec_id = ''dev'', protocolId = Null,
      raw_top = [''0xaa01'' \<mapsto> Str ''0x00'', ''0xcc00'' \<mapsto> Str ''0x11'', ''0xdd00'' \<mapsto> Str ''0x12''],
      rest = ''properties''\<rparr>"

definition example_snapshot :: "token list" where
  "example_snapshot =
     [LBracket, Elems [(''0xaa01'', Str ''0x01''), (''0xbb02'', Str ''0x02'')], Comma,
      Elems [(''0xaa99'', Null)], RBracket]"

definition example_disk :: disk where
  "example_disk =
     [binaryPath \<mapsto> Blob [127, 69], wasmPath \<mapsto> Blob [0, 97, 115, 109],
      hexPath \<mapsto> Text ''0061736d'', storagePath \<mapsto> Snapshot example_snapshot,
      originalSpecPath \<mapsto> Spec example_original, forkedSpecPath \<mapsto> Spec example_forked]"

definition example_env :: env where
  "example_env =
     \<lparr>pageSize = 2, QUICK_MODE = False, chain_getBlockHash = ''0xb10c'',
      state_getKeysPaged = store_getKeysPaged [''0x00aa'', ''0x00ab'', ''0x00ac'', ''0x01aa'', ''0xff00''],
      state_getStorage = (\<lambda>key at. if key = ''0x00ab'' then Null else Str (''0x'' @ drop 4 key)),
      arrival = (\<lambda>key. 0), interleaving = (\<lambda>prefix. [])\<rparr>"

definition example_world :: world where
  "example_world =
     \<lparr>node = example_env,
      pallets = [\<lparr>name = ''Balances'', storage = True\<rparr>, \<lparr>name = ''System'', storage = True\<rparr>,
                 \<lparr>name = ''Utility'', storage = False\<rparr>],
      xxhashAsHex = (\<lambda>n bits. if n = ''Balances'' then ''0xaa'' else ''0xee''),
      sessionStartBlock_key = Some ''0xdd00'',
      build_spec = (\<lambda>args. if ''--dev'' \<in> set args then Some example_forked else Some example_original),
      encoding = (\<lambda>c. []), chunksLevel = 1, originalChain = [], forkChain = [],
      parachainSpecPath = []\<rparr>"

definition late_env :: env where
  "late_env = example_env\<lparr>arrival := (\<lambda>key. if key = ''0x00aa'' then 1 else 0)\<rparr>"

definition example_state :: fetch_state where
  "example_state =
     \<lparr>stream = [LBracket], separator = False, chunksFetched = 0, rpc_log = [GetBlockHash]\<rparr>"

definition quick_env :: env where
  "quick_env = example_env\<lparr>QUICK_MODE := True, arrival := (\<lambda>key. if key = ''0x00aa'' then 1 else 0),
                 interleaving := (\<lambda>prefix. [1, 0, 0, 255, 7, 0])\<rparr>"

section \<open>Properties\<close>

subsection \<open>Selection and insertion\<close>



lemma insert_entry_pair:
  "insert_entry (spec, n) kv = (spec\<lparr>raw_top := (raw_top spec)(fst kv \<mapsto> snd kv)\<rparr>, Suc n)"
  by (simp add: insert_entry_def)

lemma foldl_insert_entry:
  "foldl insert_entry (spec, n) es =
     (spec\<lparr>raw_top := raw_top spec ++ map_of (rev es)\<rparr>, n + length es)"
proof (induction es rule: rev_induct)
  case Nil
  then show ?case by simp
next
  case (snoc kv es)
  have m: "(raw_top spec ++ map_of (rev es))(fst kv \<mapsto> snd kv) = raw_top spec ++ map_of (rev (es @ [kv]))"
    by (rule ext) (simp add: map_add_def)
  have "foldl insert_entry (spec, n) (es @ [kv]) =
        insert_entry (spec\<lparr>raw_top := raw_top spec ++ map_of (rev es)\<rparr>, n + length es) kv"
    by (simp only: foldl_append foldl_Cons foldl_Nil snoc.IH)
  also have "\<dots> = (spec\<lparr>raw_top := (raw_top spec ++ map_of (rev es))(fst kv \<mapsto> snd kv)\<rparr>, Suc (n + length es))"
    by (simp add: insert_entry_pair)
  also have "\<dots> = (spec\<lparr>raw_top := raw_top spec ++ map_of (rev (es @ [kv]))\<rparr>, n + length (es @ [kv]))"
    by (simp only: m) simp
  finally show ?case .
qed

lemma migrate_eq:
  "migrate allowed excluded st spec =
     (spec\<lparr>raw_top := raw_top spec ++ map_of (rev (filter (selected allowed excluded) st))\<rparr>,
      length (filter (selected allowed excluded) st))"
  by (simp add: migrate_def foldl_insert_entry)




subsection \<open>Reading the files\<close>

lemmas path_defs =
  storagePath_def hexPath_def originalSpecPath_def forkedSpecPath_def wasmPath_def binaryPath_def

lemma paths_distinct:
  "storagePath \<noteq> hexPath" "storagePath \<noteq> originalSpecPath" "storagePath \<noteq> forkedSpecPath"
  "hexPath \<noteq> originalSpecPath" "hexPath \<noteq> forkedSpecPath" "originalSpecPath \<noteq> forkedSpecPath"
  "hexPath \<noteq> storagePath" "originalSpecPath \<noteq> storagePath" "forkedSpecPath \<noteq> storagePath"
  "originalSpecPath \<noteq> hexPath" "forkedSpecPath \<noteq> hexPath" "forkedSpecPath \<noteq> originalSpecPath"
  by (simp_all add: path_defs)

lemma read_storage_Inr:
  "read_storage d p = Inr st \<longleftrightarrow> (\<exists>ts. d p = Some (Snapshot ts) \<and> parse_snapshot ts = Some st)"
  by (auto simp: read_storage_def split: option.splits content.splits)

lemma read_spec_Inr:
  "read_spec d p = Inr sp \<longleftrightarrow> d p = Some (Spec sp)"
  by (auto simp: read_spec_def split: option.splits content.splits)

lemma parse_stringify: "parse_snapshot (stringify_snapshot es) = Some es"
  by (simp add: stringify_snapshot_def)

lemma merge_parachain_Inr:
  assumes "merge_parachain pp allowed excluded st d = Inr (d1, pn)"
  shows "(pp = [] \<and> d1 = d \<and> pn = None)
       \<or> (pp \<noteq> [] \<and> (\<exists>ps. d pp = Some (Spec ps)
              \<and> d1 = d(pp \<mapsto> Spec (fst (migrate allowed excluded st ps)))
              \<and> pn = Some (snd (migrate allowed excluded st ps))))
       \<or> (pp \<noteq> [] \<and> (\<exists>ts es. d pp = Some (Snapshot ts) \<and> parse_snapshot ts = Some es
              \<and> filter (selected allowed excluded) st = []
              \<and> d1 = d(pp \<mapsto> Snapshot (stringify_snapshot es)) \<and> pn = Some 0))"
  using assms
  by (auto simp: merge_parachain_def split: if_splits option.splits content.splits prod.splits)

lemma merge_parachain_hex:
  assumes "merge_parachain pp allowed excluded st d = Inr (d1, pn)" and "d1 hexPath = Some (Text hex)"
  shows "d hexPath = Some (Text hex) \<and> pp \<noteq> hexPath"
  using merge_parachain_Inr [OF assms(1)] assms(2)
  by (auto simp: hexPath_def split: if_splits)

lemma merge_parachain_frame:
  assumes "merge_parachain pp allowed excluded st d = Inr (d1, pn)" and "p \<noteq> pp"
  shows "d1 p = d p"
  using merge_parachain_Inr [OF assms(1)] assms(2) by auto

lemma merge_Inr:
  assumes "merge pp key allowed excluded d = Inr m"
  shows "\<exists>st original forked d1 pn hex.
           read_storage d storagePath = Inr st \<and>
           d originalSpecPath = Some (Spec original) \<and>
           d forkedSpecPath = Some (Spec forked) \<and>
           merge_parachain pp allowed excluded st d = Inr (d1, pn) \<and>
           d1 hexPath = Some (Text hex) \<and>
           m = \<lparr>files = d1(forkedSpecPath \<mapsto> Spec (final_spec key hex allowed excluded st original forked)),
                migrated_storages = length (filter (selected allowed excluded) st),
                paraMigrated = pn\<rparr>"
  using assms
  unfolding merge_def final_spec_def
  by (auto simp: read_spec_Inr migrate_eq split: sum.splits prod.splits option.splits content.splits)

lemma merge_unfold:
  assumes "read_storage d storagePath = Inr st"
    and "d originalSpecPath = Some (Spec original)"
    and "d forkedSpecPath = Some (Spec forked)"
    and "merge_parachain pp allowed excluded st d = Inr (d1, pn)"
    and "d1 hexPath = Some (Text hex)"
  shows "merge pp key allowed excluded d =
           Inr \<lparr>files = d1(forkedSpecPath \<mapsto> Spec (final_spec key hex allowed excluded st original forked)),
                migrated_storages = length (filter (selected allowed excluded) st),
                paraMigrated = pn\<rparr>"
  using assms
  unfolding merge_def final_spec_def
  by (simp add: read_spec_def migrate_eq)


lemma acquisition_cached:
  "d storagePath \<noteq> None \<Longrightarrow> acquisition e l d log = Some (d, log)"
  by (simp add: acquisition_def)

lemma main_success:
  assumes "main w d = Some (Inr r)" and "exit_code r = 0"
  shows "\<exists>wasm d2 log original forked m.
           d wasmPath = Some wasm \<and>
           acquisition (node w) (chunksLevel w)
             (d(hexPath \<mapsto> Text (hexdump (content_bytes (encoding w) wasm)))) [] = Some (d2, log) \<and>
           build_spec w (build_spec_args (originalChain w) []) = Some original \<and>
           build_spec w (build_spec_args (forkChain w) [''--dev'']) = Some forked \<and>
           merge (parachainSpecPath w) (sessionStartBlock_key w)
             (populate_prefixes (xxhashAsHex w) (pallets w) prefixes) skippedPrefixes
             (d2(originalSpecPath \<mapsto> Spec original, forkedSpecPath \<mapsto> Spec forked)) = Inr m \<and>
           r = \<lparr>exit_code = 0, disk_after = files m, requests = log @ [GetMetadata]\<rparr>"
  using assms
  unfolding main_def Let_def
  by (auto split: if_splits option.splits sum.splits prod.splits)

lemma result_collapse:
  "(case x of Some (Inr r) \<Rightarrow> P r | other \<Rightarrow> False) \<Longrightarrow>
     x = Some (Inr (projr (the x))) \<and> P (projr (the x))"
  by (auto split: option.splits sum.splits)

subsection \<open>The runtime code and the scheduling key\<close>










lemma raw_top_fixParachinStates:
  "raw_top (fixParachinStates key sp) x = (if key = Some x then None else raw_top sp x)"
  by (cases key) (auto simp: fixParachinStates_def)

lemma raw_top_set_code:
  "raw_top (set_code hex sp) x = (if x = code_key then Some (Str (''0x'' @ trim hex)) else raw_top sp x)"
  by (simp add: set_code_def)

lemma raw_top_migrate:
  "raw_top (fst (migrate allowed excluded st sp)) =
     raw_top sp ++ map_of (rev (filter (selected allowed excluded) st))"
  by (simp add: migrate_eq)

lemma raw_top_final_spec:
  "raw_top (final_spec key hex allowed excluded st original forked) x =
     (if x = code_key then Some (Str (''0x'' @ trim hex))
      else if key = Some x then None
      else (raw_top forked ++ map_of (rev (filter (selected allowed excluded) st))) x)"
  by (simp add: final_spec_def raw_top_set_code raw_top_fixParachinStates raw_top_migrate rename_def)

lemma other_fields_fixParachinStates:
  "spec_name (fixParachinStates key sp) = spec_name sp"
  "spec_id (fixParachinStates key sp) = spec_id sp"
  "protocolId (fixParachinStates key sp) = protocolId sp"
  "rest (fixParachinStates key sp) = rest sp"
  by (cases key; simp add: fixParachinStates_def)+

lemma other_fields_final_spec:
  "spec_name (final_spec key hex allowed excluded st original forked) = spec_name original @ ''-fork''"
  "spec_id (final_spec key hex allowed excluded st original forked) = spec_id original @ ''-fork''"
  "protocolId (final_spec key hex allowed excluded st original forked) = protocolId original"
  "rest (final_spec key hex allowed excluded st original forked) = rest forked"
  by (simp_all add: final_spec_def set_code_def other_fields_fixParachinStates migrate_eq rename_def)

lemma example_main:
  "case main example_world example_disk of Some (Inr r) \<Rightarrow> exit_code r = 0 | other \<Rightarrow> False"
  by (simp add: main_def Let_def acquisition_def example_world_def example_disk_def
      build_spec_args_def merge_def read_storage_def example_snapshot_def read_spec_def
      merge_parachain_def migrate_eq path_defs)

lemma example_merge:
  "case Some (merge [] (Some ''0xdd00'') [''0xaa''] [''0xaa99''] example_disk) of
     Some (Inr m) \<Rightarrow> True | other \<Rightarrow> False"
  by (simp add: merge_def read_storage_def example_snapshot_def read_spec_def example_disk_def
      merge_parachain_def migrate_eq path_defs)


lemma example_merge_run:
  "\<not> isl (merge [] (Some ''0xdd00'') [''0xaa''] [''0xaa99''] example_disk)"
  by (simp add: merge_def read_storage_def example_snapshot_def read_spec_def example_disk_def
      merge_parachain_def migrate_eq path_defs)




subsection \<open>Running the merge again\<close>

lemma map_add_twice: "(m ++ n) ++ n = m ++ n"
  by (rule ext) (simp add: map_add_def split: option.splits)

lemma migrate_twice:
  "migrate allowed excluded st (fst (migrate allowed excluded st sp)) = migrate allowed excluded st sp"
  by (simp add: migrate_eq map_add_twice)

lemma final_spec_twice:
  assumes "spec_name o' = spec_name original" "spec_id o' = spec_id original"
    "protocolId o' = protocolId original"
  shows "final_spec key hex allowed excluded st o'
           (final_spec key hex allowed excluded st original forked)
         = final_spec key hex allowed excluded st original forked"
proof (rule chain_spec.equality)
  let ?F = "final_spec key hex allowed excluded st original forked"
  show "raw_top (final_spec key hex allowed excluded st o' ?F) = raw_top ?F"
    by (rule ext) (simp add: raw_top_final_spec map_add_def split: option.splits)
qed (simp_all add: other_fields_final_spec assms)

lemma migrate_fields:
  "spec_name (fst (migrate allowed excluded st sp)) = spec_name sp"
  "spec_id (fst (migrate allowed excluded st sp)) = spec_id sp"
  "protocolId (fst (migrate allowed excluded st sp)) = protocolId sp"
  "rest (fst (migrate allowed excluded st sp)) = rest sp"
  by (simp_all add: migrate_eq)

lemma merge_again:
  assumes "merge pp key allowed excluded d = Inr m"
  shows "merge pp key allowed excluded (files m) = Inr m"
proof -
  from merge_Inr [OF assms] obtain st original forked d1 pn hex where
    st: "read_storage d storagePath = Inr st" and
    o: "d originalSpecPath = Some (Spec original)" and
    f: "d forkedSpecPath = Some (Spec forked)" and
    mp: "merge_parachain pp allowed excluded st d = Inr (d1, pn)" and
    hx: "d1 hexPath = Some (Text hex)" and
    m: "m = \<lparr>files = d1(forkedSpecPath \<mapsto> Spec (final_spec key hex allowed excluded st original forked)),
              migrated_storages = length (filter (selected allowed excluded) st), paraMigrated = pn\<rparr>"
    by blast
  let ?F = "final_spec key hex allowed excluded st original forked"
  let ?d' = "d1(forkedSpecPath \<mapsto> Spec ?F)"
  let ?mig = "\<lambda>sp. fst (migrate allowed excluded st sp)"
  have files: "files m = ?d'" by (simp add: m)
  from st obtain ts where ts: "d storagePath = Some (Snapshot ts)" "parse_snapshot ts = Some st"
    by (auto simp: read_storage_Inr)
  have dhex: "d hexPath = Some (Text hex)"
    using merge_parachain_hex [OF mp hx] by simp
  have "\<exists>o' d1'. read_storage ?d' storagePath = Inr st
          \<and> ?d' originalSpecPath = Some (Spec o')
          \<and> spec_name o' = spec_name original \<and> spec_id o' = spec_id original
          \<and> protocolId o' = protocolId original
          \<and> merge_parachain pp allowed excluded st ?d' = Inr (d1', pn)
          \<and> d1' hexPath = Some (Text hex)
          \<and> d1'(forkedSpecPath \<mapsto> Spec ?F) = ?d'"
    using merge_parachain_Inr [OF mp]
  proof (elim disjE conjE exE)
    assume "pp = []" "d1 = d" "pn = None"
    then show ?thesis
      using st o dhex
      by (intro exI [of _ original] exI [of _ ?d'])
         (simp add: merge_parachain_def read_storage_def paths_distinct ts)
  next
    fix ps
    assume pp: "pp \<noteq> []" and ps: "d pp = Some (Spec ps)"
      and d1: "d1 = d(pp \<mapsto> Spec (?mig ps))"
      and pn: "pn = Some (snd (migrate allowed excluded st ps))"
    have nst: "pp \<noteq> storagePath" using ps ts by auto
    have rs: "read_storage ?d' storagePath = Inr st"
      using nst ts by (simp add: d1 read_storage_def paths_distinct)
    show ?thesis
    proof (cases "pp = forkedSpecPath")
      case True
      have "merge_parachain pp allowed excluded st ?d' = Inr (?d'(pp \<mapsto> Spec (?mig ?F)), pn)"
        using pp True by (simp add: merge_parachain_def pn migrate_eq)
      moreover have "?d' originalSpecPath = Some (Spec original)"
        using True o by (simp add: d1 paths_distinct)
      moreover have "(?d'(pp \<mapsto> Spec (?mig ?F))) hexPath = Some (Text hex)"
        using True dhex by (simp add: d1 paths_distinct)
      moreover have "(?d'(pp \<mapsto> Spec (?mig ?F)))(forkedSpecPath \<mapsto> Spec ?F) = ?d'"
        using True by simp
      ultimately show ?thesis using rs by blast
    next
      case False
      have dpp: "?d' pp = Some (Spec (?mig ps))"
        using False by (simp add: d1)
      have "merge_parachain pp allowed excluded st ?d' = Inr (?d'(pp \<mapsto> Spec (?mig (?mig ps))), pn)"
        using pp dpp by (simp add: merge_parachain_def pn migrate_eq)
      moreover have same: "?d'(pp \<mapsto> Spec (?mig (?mig ps))) = ?d'"
        using dpp by (simp add: migrate_twice fun_upd_idem)
      moreover have "\<exists>o'. ?d' originalSpecPath = Some (Spec o') \<and> spec_name o' = spec_name original
          \<and> spec_id o' = spec_id original \<and> protocolId o' = protocolId original"
      proof (cases "pp = originalSpecPath")
        case True
        then have "ps = original" using ps o by simp
        then show ?thesis using True by (simp add: d1 paths_distinct migrate_fields)
      next
        case False
        then show ?thesis using o by (simp add: d1 paths_distinct)
      qed
      moreover have "?d' hexPath = Some (Text hex)"
        using hx by (simp add: paths_distinct)
      ultimately show ?thesis using rs by (metis fun_upd_upd)
    qed
  next
    fix ts' es
    assume pp: "pp \<noteq> []" and tsp: "d pp = Some (Snapshot ts')" and es: "parse_snapshot ts' = Some es"
      and nosel: "filter (selected allowed excluded) st = []"
      and d1: "d1 = d(pp \<mapsto> Snapshot (stringify_snapshot es))"
      and pn: "pn = Some 0"
    have nf: "pp \<noteq> forkedSpecPath" and no: "pp \<noteq> originalSpecPath"
      using tsp f o by auto
    have rs: "read_storage ?d' storagePath = Inr st"
    proof (cases "pp = storagePath")
      case True
      then have "es = st" using tsp es ts by simp
      then show ?thesis using True by (simp add: d1 read_storage_def paths_distinct parse_stringify)
    next
      case False
      then show ?thesis using ts by (simp add: d1 read_storage_def paths_distinct)
    qed
    have dpp: "?d' pp = Some (Snapshot (stringify_snapshot es))"
      using nf by (simp add: d1)
    have "merge_parachain pp allowed excluded st ?d' =
              Inr (?d'(pp \<mapsto> Snapshot (stringify_snapshot es)), pn)"
      using pp dpp nosel by (simp add: merge_parachain_def pn parse_stringify)
    moreover have "?d'(pp \<mapsto> Snapshot (stringify_snapshot es)) = ?d'"
      using dpp by (simp add: fun_upd_idem)
    moreover have "?d' originalSpecPath = Some (Spec original)"
      using no o by (simp add: d1 paths_distinct)
    moreover have "?d' hexPath = Some (Text hex)"
      using hx by (simp add: paths_distinct)
    ultimately show ?thesis using rs by (metis fun_upd_upd)
  qed
  then obtain o' d1' where
    a: "read_storage ?d' storagePath = Inr st" and
    b: "?d' originalSpecPath = Some (Spec o')" and
    n: "spec_name o' = spec_name original" "spec_id o' = spec_id original"
       "protocolId o' = protocolId original" and
    c: "merge_parachain pp allowed excluded st ?d' = Inr (d1', pn)" and
    e: "d1' hexPath = Some (Text hex)" and
    g: "d1'(forkedSpecPath \<mapsto> Spec ?F) = ?d'"
    by blast
  have "?d' forkedSpecPath = Some (Spec ?F)" by simp
  from merge_unfold [OF a b this c e, of key]
  have "merge pp key allowed excluded ?d' = Inr m"
    by (simp only: final_spec_twice [OF n] g m)
  then show ?thesis
    by (simp only: files)
qed

text \<open>
  C8. A second run of the merge on the files the first run left, with the same
  snapshot, prefix lists and runtime, returns the same files and the same counts.
  Inserting the selected entries into a document that already holds them gives the
  same document and the same count, and so does the whole of lines 211-263 on the
  forked specification.
\<close>

theorem merge_idempotent:
  "(merge pp key allowed excluded d = Inr m \<longrightarrow> merge pp key allowed excluded (files m) = Inr m)
   \<and> migrate allowed excluded st (fst (migrate allowed excluded st sp)) = migrate allowed excluded st sp
   \<and> final_spec key hex allowed excluded st original
        (final_spec key hex allowed excluded st original forked)
      = final_spec key hex allowed excluded st original forked"
  by (simp add: merge_again migrate_twice final_spec_twice)

theorem merge_idempotent_witness:
  "\<not> isl (merge [] (Some ''0xdd00'') [''0xaa''] [''0xaa99''] example_disk)
   \<and> merge [] (Some ''0xdd00'') [''0xaa''] [''0xaa99'']
        (files (projr (merge [] (Some ''0xdd00'') [''0xaa''] [''0xaa99''] example_disk)))
      = merge [] (Some ''0xdd00'') [''0xaa''] [''0xaa99''] example_disk"
proof -
  let ?m = "projr (merge [] (Some ''0xdd00'') [''0xaa''] [''0xaa99''] example_disk)"
  have run: "merge [] (Some ''0xdd00'') [''0xaa''] [''0xaa99''] example_disk = Inr ?m"
    using example_merge_run by simp
  from merge_idempotent [where pp = "[]" and key = "Some ''0xdd00''" and allowed = "[''0xaa'']"
      and excluded = "[''0xaa99'']" and d = example_disk and m = "?m"] run
  have "merge [] (Some ''0xdd00'') [''0xaa''] [''0xaa99''] (files ?m) = Inr ?m"
    by blast
  with run example_merge_run show ?thesis
    by simp
qed

subsection \<open>What the merge leaves alone\<close>

text \<open>
  C10, as amended. A successful merge rewrites the forked specification: its name,
  id and protocol id come from the original, its other members are kept, and in
  \<^verbatim>\<open>genesis.raw.top\<close> every key that is neither the key of a selected entry, nor the
  scheduling key, nor the code key keeps the value the generated document had. Every
  file other than the forked specification and the file named by \<^verbatim>\<open>PARACHAIN\<close> is
  left as it was; so the original document and the snapshot are unchanged whenever
  \<^verbatim>\<open>PARACHAIN\<close> names neither of them.
\<close>

theorem merge_frame:
  assumes "merge pp key allowed excluded d = Inr m"
  shows "\<exists>st original forked sp.
           read_storage d storagePath = Inr st \<and>
           d originalSpecPath = Some (Spec original) \<and>
           d forkedSpecPath = Some (Spec forked) \<and>
           files m forkedSpecPath = Some (Spec sp) \<and>
           spec_name sp = spec_name original @ ''-fork'' \<and>
           spec_id sp = spec_id original @ ''-fork'' \<and>
           protocolId sp = protocolId original \<and>
           rest sp = rest forked \<and>
           (\<forall>x. x \<notin> fst ` set (filter (selected allowed excluded) st) \<and> key \<noteq> Some x \<and> x \<noteq> code_key
                \<longrightarrow> raw_top sp x = raw_top forked x) \<and>
           (\<forall>p. p \<noteq> forkedSpecPath \<and> p \<noteq> pp \<longrightarrow> files m p = d p) \<and>
           (pp \<noteq> originalSpecPath \<longrightarrow> files m originalSpecPath = d originalSpecPath) \<and>
           (pp \<noteq> storagePath \<longrightarrow> files m storagePath = d storagePath)"
proof -
  from merge_Inr [OF assms] obtain st original forked d1 pn hex where
    st: "read_storage d storagePath = Inr st" and
    o: "d originalSpecPath = Some (Spec original)" and
    f: "d forkedSpecPath = Some (Spec forked)" and
    mp: "merge_parachain pp allowed excluded st d = Inr (d1, pn)" and
    m: "m = \<lparr>files = d1(forkedSpecPath \<mapsto> Spec (final_spec key hex allowed excluded st original forked)),
              migrated_storages = length (filter (selected allowed excluded) st), paraMigrated = pn\<rparr>"
    by blast
  let ?sp = "final_spec key hex allowed excluded st original forked"
  have top: "raw_top ?sp x = raw_top forked x"
    if "x \<notin> fst ` set (filter (selected allowed excluded) st)" "key \<noteq> Some x" "x \<noteq> code_key" for x
  proof -
    have "map_of (rev (filter (selected allowed excluded) st)) x = None"
      using that(1) by (simp add: map_of_eq_None_iff)
    then show ?thesis
      using that by (simp add: raw_top_final_spec map_add_def)
  qed
  have frame: "files m p = d p" if "p \<noteq> forkedSpecPath" "p \<noteq> pp" for p
    using merge_parachain_frame [OF mp that(2)] that(1) by (simp add: m)
  show ?thesis
    using st o f top frame
    by (intro exI [of _ st] exI [of _ original] exI [of _ forked] exI [of _ ?sp])
       (simp add: m other_fields_final_spec paths_distinct)
qed

theorem merge_frame_witness:
  "files (projr (merge [] (Some ''0xdd00'') [''0xaa''] [''0xaa99''] example_disk)) originalSpecPath
     = example_disk originalSpecPath
   \<and> files (projr (merge [] (Some ''0xdd00'') [''0xaa''] [''0xaa99''] example_disk)) storagePath
     = example_disk storagePath
   \<and> top_at (files (projr (merge [] (Some ''0xdd00'') [''0xaa''] [''0xaa99''] example_disk)))
        forkedSpecPath ''0xcc00'' = Some (Str ''0x11'')"
proof -
  let ?m = "projr (merge [] (Some ''0xdd00'') [''0xaa''] [''0xaa99''] example_disk)"
  have run: "merge [] (Some ''0xdd00'') [''0xaa''] [''0xaa99''] example_disk = Inr ?m"
    using example_merge_run by simp
  from merge_frame [OF run] obtain st original forked sp where
    a: "read_storage example_disk storagePath = Inr st"
       "example_disk forkedSpecPath = Some (Spec forked)"
       "files ?m forkedSpecPath = Some (Spec sp)"
       "\<forall>x. x \<notin> fst ` set (filter (selected [''0xaa''] [''0xaa99'']) st) \<and> Some ''0xdd00'' \<noteq> Some x
            \<and> x \<noteq> code_key \<longrightarrow> raw_top sp x = raw_top forked x"
       "[] \<noteq> originalSpecPath \<longrightarrow> files ?m originalSpecPath = example_disk originalSpecPath"
       "[] \<noteq> storagePath \<longrightarrow> files ?m storagePath = example_disk storagePath"
    by blast
  from a(1) have st: "st = [(''0xaa01'', Str ''0x01''), (''0xbb02'', Str ''0x02''), (''0xaa99'', Null)]"
    by (simp add: read_storage_def example_disk_def example_snapshot_def path_defs)
  from a(2) have forked: "forked = example_forked"
    by (simp add: example_disk_def path_defs)
  have "raw_top sp ''0xcc00'' = raw_top forked ''0xcc00''"
    using a(4) by (simp add: st selected_def some_def startsWith_def code_key_def)
  then have "top_at (files ?m) forkedSpecPath ''0xcc00'' = Some (Str ''0x11'')"
    using a(3) by (simp add: top_at_def forked example_forked_def)
  with a(5,6) show ?thesis
    by (simp add: path_defs)
qed

text \<open>
  With \<^verbatim>\<open>PARACHAIN\<close> set to the path of the original specification, lines 229-242
  insert the selected entries into that document and write it back.
\<close>

theorem merge_modifies_original:
  "\<not> isl (merge originalSpecPath None [''0xaa''] [''0xaa99''] example_disk)
   \<and> top_at (files (projr (merge originalSpecPath None [''0xaa''] [''0xaa99''] example_disk)))
        originalSpecPath ''0xaa01'' = Some (Str ''0x01'')
   \<and> top_at example_disk originalSpecPath ''0xaa01'' = None"
  by (simp add: merge_def read_storage_def example_snapshot_def read_spec_def example_disk_def
      merge_parachain_def migrate_eq top_at_def example_original_def selected_def some_def
      startsWith_def path_defs)

subsection \<open>The loop of one leaf\<close>

lemma leaf_iter_eq:
  "leaf_iter e prefix at c s =
     (next_cursor e prefix at c,
      page_effect e prefix at (c, state_getKeysPaged e prefix (pageSize e) c at) s,
      length (state_getKeysPaged e prefix (pageSize e) c at) < pageSize e)"
  by (simp add: leaf_iter_def next_cursor_def page_effect_def Let_def)

lemma leaf_loop_unfold:
  "leaf_loop e prefix at c s =
     (if length (state_getKeysPaged e prefix (pageSize e) c at) < pageSize e
      then Some (page_effect e prefix at (c, state_getKeysPaged e prefix (pageSize e) c at) s)
      else leaf_loop e prefix at (next_cursor e prefix at c)
             (page_effect e prefix at (c, state_getKeysPaged e prefix (pageSize e) c at) s))"
  by (subst leaf_loop.simps) (simp add: leaf_iter_eq)

lemma leaf_pages_unfold:
  "leaf_pages e prefix at c =
     (if length (state_getKeysPaged e prefix (pageSize e) c at) < pageSize e
      then Some [(c, state_getKeysPaged e prefix (pageSize e) c at)]
      else Option.bind (leaf_pages e prefix at (next_cursor e prefix at c))
             (\<lambda>pgs. Some ((c, state_getKeysPaged e prefix (pageSize e) c at) # pgs)))"
  by (subst leaf_pages.simps) (simp add: next_cursor_def Let_def)

lemma leaf_pages_loop_aux:
  "leaf_pages e prefix at c = Some pgs \<Longrightarrow>
     \<forall>s. leaf_loop e prefix at c s = Some (apply_pages e prefix at pgs s)"
proof (induct rule: leaf_pages.raw_induct [rotated, consumes 1])
  case (1 rec e prefix at c pgs)
  let ?keys = "state_getKeysPaged e prefix (pageSize e) c at"
  show ?case
  proof (cases "length ?keys < pageSize e")
    case True
    with 1(2) have "pgs = [(c, ?keys)]" by (simp add: Let_def)
    with True show ?thesis
      by (subst leaf_loop_unfold) (simp add: apply_pages_def)
  next
    case False
    with 1(2) obtain pgs' where
      r: "rec e prefix at (next_cursor e prefix at c) = Some pgs'" and p: "pgs = (c, ?keys) # pgs'"
      by (auto simp: Let_def next_cursor_def bind_eq_Some_conv)
    from 1(1) [OF r] False show ?thesis
      by (subst leaf_loop_unfold) (simp add: p apply_pages_def)
  qed
qed

lemma leaf_pages_loop:
  "leaf_pages e prefix at c = Some pgs \<Longrightarrow>
     leaf_loop e prefix at c s = Some (apply_pages e prefix at pgs s)"
  by (simp add: leaf_pages_loop_aux)

lemma leaf_loop_pages:
  "leaf_loop e prefix at c s = Some s' \<Longrightarrow> \<exists>pgs. leaf_pages e prefix at c = Some pgs"
proof (induct rule: leaf_loop.raw_induct [rotated, consumes 1])
  case (1 rec e prefix at c s s')
  let ?keys = "state_getKeysPaged e prefix (pageSize e) c at"
  show ?case
  proof (cases "length ?keys < pageSize e")
    case True
    then show ?thesis by (subst leaf_pages_unfold) simp
  next
    case False
    with 1(2) have "rec e prefix at (next_cursor e prefix at c)
        (page_effect e prefix at (c, ?keys) s) = Some s'"
      by (simp add: leaf_iter_eq)
    from 1(1) [OF this] False show ?thesis
      by (subst leaf_pages_unfold) auto
  qed
qed

lemma leaf_loop_eq:
  "leaf_loop e prefix at c s = map_option (\<lambda>pgs. apply_pages e prefix at pgs s) (leaf_pages e prefix at c)"
proof (cases "leaf_pages e prefix at c")
  case None
  then show ?thesis
    using leaf_loop_pages [of e prefix at c s] by (cases "leaf_loop e prefix at c s") auto
next
  case (Some pgs)
  then show ?thesis by (simp add: leaf_pages_loop)
qed

lemma entries_append: "entries (xs @ ys) = entries xs @ entries ys"
  by (induction xs rule: entries.induct) simp_all

lemma write_pairs_fields:
  "stream (write_pairs ps s) = stream s @ (if separator s then [Comma] else []) @ [Elems ps]"
  "separator (write_pairs ps s) = True"
  "rpc_log (write_pairs ps s) = rpc_log s"
  "chunksFetched (write_pairs ps s) = chunksFetched s"
  by (simp_all add: write_pairs_def Let_def)

lemma fetch_pairs_Nil: "fetch_pairs e at [] = []"
  by (simp add: fetch_pairs_def)

lemma page_effect_stream:
  "stream (page_effect e prefix at pg s) =
     (if snd pg = [] then stream s
      else stream s @ (if separator s then [Comma] else []) @ [Elems (fetch_pairs e at (snd pg))])"
  by (simp add: page_effect_def Let_def write_pairs_fields)

lemma page_effect_entries:
  "entries (stream (page_effect e prefix at pg s)) = entries (stream s) @ fetch_pairs e at (snd pg)"
  by (simp add: page_effect_stream entries_append fetch_pairs_Nil)

lemma page_effect_log:
  "rpc_log (page_effect e prefix at pg s) =
     rpc_log s @ GetKeysPaged prefix (pageSize e) (fst pg) at # map (\<lambda>key. GetStorage key at) (snd pg)"
  by (simp add: page_effect_def Let_def write_pairs_fields)

lemma listing_calls_append: "listing_calls (xs @ ys) = listing_calls xs @ listing_calls ys"
  by (simp add: listing_calls_def)

lemma listing_calls_values: "listing_calls (map (\<lambda>key. GetStorage key at) keys) = []"
  by (induction keys) (simp_all add: listing_calls_def)

lemma page_effect_listing:
  "listing_calls (rpc_log (page_effect e prefix at pg s)) =
     listing_calls (rpc_log s) @ [GetKeysPaged prefix (pageSize e) (fst pg) at]"
proof -
  have "listing_calls (GetKeysPaged prefix (pageSize e) (fst pg) at # map (\<lambda>key. GetStorage key at) (snd pg))
        = [GetKeysPaged prefix (pageSize e) (fst pg) at]"
    using listing_calls_values [of at "snd pg"] by (simp add: listing_calls_def)
  then show ?thesis
    by (simp add: page_effect_log listing_calls_append)
qed

lemma page_effect_chunks: "chunksFetched (page_effect e prefix at pg s) = chunksFetched s"
  by (simp add: page_effect_def Let_def write_pairs_fields)

lemma apply_pages_Nil: "apply_pages e prefix at [] s = s"
  by (simp add: apply_pages_def)

lemma apply_pages_Cons:
  "apply_pages e prefix at (pg # pgs) s = apply_pages e prefix at pgs (page_effect e prefix at pg s)"
  by (simp add: apply_pages_def)

lemma apply_pages_entries:
  "entries (stream (apply_pages e prefix at pgs s)) =
     entries (stream s) @ concat (map (\<lambda>pg. fetch_pairs e at (snd pg)) pgs)"
  by (induction pgs arbitrary: s) (simp_all add: apply_pages_Nil apply_pages_Cons page_effect_entries)

lemma apply_pages_listing:
  "listing_calls (rpc_log (apply_pages e prefix at pgs s)) =
     listing_calls (rpc_log s) @ map (\<lambda>pg. GetKeysPaged prefix (pageSize e) (fst pg) at) pgs"
  by (induction pgs arbitrary: s) (simp_all add: apply_pages_Nil apply_pages_Cons page_effect_listing)

lemma apply_pages_chunks: "chunksFetched (apply_pages e prefix at pgs s) = chunksFetched s"
  by (induction pgs arbitrary: s) (simp_all add: apply_pages_Nil apply_pages_Cons page_effect_chunks)

lemma fetch_pairs_mset:
  "mset (fetch_pairs e at keys) = mset (map (\<lambda>key. (key, state_getStorage e key at)) keys)"
  by (simp add: fetch_pairs_def)

lemma fetch_pairs_sorted:
  "sorted (map (arrival e) keys) \<Longrightarrow>
     fetch_pairs e at keys = map (\<lambda>key. (key, state_getStorage e key at)) keys"
  by (simp add: fetch_pairs_def sort_key_id_if_sorted)

lemma fetch_pairs_keys: "mset (map fst (fetch_pairs e at keys)) = mset keys"
  by (simp add: fetch_pairs_def comp_def)

lemma fetch_pairs_set:
  "set (fetch_pairs e at keys) = (\<lambda>key. (key, state_getStorage e key at)) ` set keys"
  by (simp add: fetch_pairs_def)

lemma leaf_pages_cong_aux:
  "leaf_pages e prefix at c = Some pgs \<Longrightarrow>
     \<forall>e' :: env. pageSize e' = pageSize e \<and> state_getKeysPaged e' = state_getKeysPaged e
        \<longrightarrow> leaf_pages e' prefix at c = Some pgs"
proof (induct rule: leaf_pages.raw_induct [rotated, consumes 1])
  case (1 rec e prefix at c pgs)
  let ?keys = "state_getKeysPaged e prefix (pageSize e) c at"
  show ?case
  proof (intro allI impI)
    fix e' :: env
    assume same: "pageSize e' = pageSize e \<and> state_getKeysPaged e' = state_getKeysPaged e"
    then have nc: "next_cursor e' prefix at c = next_cursor e prefix at c"
      by (simp add: next_cursor_def)
    show "leaf_pages e' prefix at c = Some pgs"
    proof (cases "length ?keys < pageSize e")
      case True
      with 1(2) have "pgs = [(c, ?keys)]" by (simp add: Let_def)
      with True same show ?thesis
        by (subst leaf_pages_unfold) simp
    next
      case False
      with 1(2) obtain pgs' where
        r: "rec e prefix at (next_cursor e prefix at c) = Some pgs'" and p: "pgs = (c, ?keys) # pgs'"
        by (auto simp: Let_def next_cursor_def bind_eq_Some_conv)
      from 1(1) [OF r] same have "leaf_pages e' prefix at (next_cursor e prefix at c) = Some pgs'"
        by blast
      with False same show ?thesis
        by (subst leaf_pages_unfold) (simp add: p nc)
    qed
  qed
qed

lemma leaf_pages_cong:
  assumes "pageSize e' = pageSize e" "state_getKeysPaged e' = state_getKeysPaged e"
  shows "leaf_pages e' prefix at c = leaf_pages e prefix at c"
proof (cases "leaf_pages e prefix at c")
  case (Some pgs)
  then show ?thesis using leaf_pages_cong_aux [OF Some] assms by simp
next
  case None
  show ?thesis
  proof (cases "leaf_pages e' prefix at c")
    case None
    with \<open>leaf_pages e prefix at c = None\<close> show ?thesis by simp
  next
    case (Some pgs)
    from leaf_pages_cong_aux [OF Some] assms have "leaf_pages e prefix at c = Some pgs"
      by simp
    with None show ?thesis by simp
  qed
qed

subsection \<open>The order of the pairs of a page\<close>

lemma late_page:
  "state_getKeysPaged late_env ''0x00'' (pageSize late_env) None ''0xb10c'' = [''0x00aa'', ''0x00ab'']"
  by (simp add: late_env_def example_env_def store_getKeysPaged_def startsWith_def follows_def)

lemma late_pairs:
  "fetch_pairs late_env ''0xb10c'' [''0x00aa'', ''0x00ab''] = [(''0x00ab'', Null), (''0x00aa'', Str ''0xaa'')]"
  by (simp add: fetch_pairs_def late_env_def example_env_def)

lemma example_page:
  "state_getKeysPaged example_env ''0x00'' (pageSize example_env) None ''0xb10c'' = [''0x00aa'', ''0x00ab'']"
  by (simp add: example_env_def store_getKeysPaged_def startsWith_def follows_def)

text \<open>
  C5, as amended. The pairs written for a page are the keys of the listing, each with
  its value, in the order in which the answers to the value requests arrive: line 291
  pushes a pair when its own request returns. They are a permutation of the listing,
  and they are in the order of the listing when the answers arrive in the order of the
  requests. The whole page is written by one \<^verbatim>\<open>stream.write\<close>, after a comma unless it
  is the first page of the file.
\<close>

theorem page_pairs_in_arrival_order:
  "fetch_pairs e at keys = map (\<lambda>key. (key, state_getStorage e key at)) (sort_key (arrival e) keys)
   \<and> mset (fetch_pairs e at keys) = mset (map (\<lambda>key. (key, state_getStorage e key at)) keys)
   \<and> (sorted (map (arrival e) keys) \<longrightarrow>
        fetch_pairs e at keys = map (\<lambda>key. (key, state_getStorage e key at)) keys)
   \<and> (state_getKeysPaged e prefix (pageSize e) c at = keys \<and> keys \<noteq> [] \<longrightarrow>
        stream (fst (snd (leaf_iter e prefix at c s)))
          = stream s @ (if separator s then [Comma] else []) @ [Elems (fetch_pairs e at keys)])"
proof (intro conjI impI)
  show "fetch_pairs e at keys = map (\<lambda>key. (key, state_getStorage e key at)) (sort_key (arrival e) keys)"
    by (simp add: fetch_pairs_def)
  show "mset (fetch_pairs e at keys) = mset (map (\<lambda>key. (key, state_getStorage e key at)) keys)"
    by (rule fetch_pairs_mset)
  show "fetch_pairs e at keys = map (\<lambda>key. (key, state_getStorage e key at)) keys"
    if "sorted (map (arrival e) keys)"
    using that by (rule fetch_pairs_sorted)
  show "stream (fst (snd (leaf_iter e prefix at c s)))
          = stream s @ (if separator s then [Comma] else []) @ [Elems (fetch_pairs e at keys)]"
    if "state_getKeysPaged e prefix (pageSize e) c at = keys \<and> keys \<noteq> []"
    using that by (simp add: leaf_iter_eq page_effect_stream)
qed

theorem page_pairs_in_arrival_order_witness:
  "stream (fst (snd (leaf_iter example_env ''0x00'' ''0xb10c'' None example_state)))
     = [LBracket, Elems [(''0x00aa'', Str ''0xaa''), (''0x00ab'', Null)]]"
proof -
  have "sorted (map (arrival example_env) [''0x00aa'', ''0x00ab''])"
    by (simp add: example_env_def)
  with page_pairs_in_arrival_order [where e = example_env and at = "''0xb10c''"
      and keys = "[''0x00aa'', ''0x00ab'']" and prefix = "''0x00''" and c = None
      and s = example_state]
    example_page
  show ?thesis
    by (simp add: example_state_def example_env_def)
qed

text \<open>
  The listing returns \<open>0x00aa\<close> before \<open>0x00ab\<close>; the answer for \<open>0x00aa\<close> arrives
  last, and the page is written with \<open>0x00ab\<close> first.
\<close>

theorem page_pairs_not_in_listing_order:
  "state_getKeysPaged late_env ''0x00'' (pageSize late_env) None ''0xb10c'' = [''0x00aa'', ''0x00ab'']
   \<and> stream (fst (snd (leaf_iter late_env ''0x00'' ''0xb10c'' None example_state)))
       = [LBracket, Elems [(''0x00ab'', Null), (''0x00aa'', Str ''0xaa'')]]"
  by (simp add: leaf_iter_eq late_page page_effect_stream late_pairs example_state_def)

subsection \<open>Pagination\<close>

lemma follows_Some: "follows (Some c) = (<) c"
  by (rule ext) (simp add: follows_def)

lemma cursor_of_filter:
  assumes "sorted_wrt (<) (ds @ rs)"
  shows "filter (follows (if ds = [] then None else Some (last ds))) (ds @ rs) = (rs :: string list)"
proof (cases "ds = []")
  case True
  then show ?thesis by (simp add: follows_def)
next
  case False
  then have ds: "ds = butlast ds @ [last ds]" by simp
  from assms have a: "\<forall>x\<in>set ds. \<forall>y\<in>set rs. x < y" and b: "sorted_wrt (<) ds"
    by (simp_all add: sorted_wrt_append)
  from b ds have "sorted_wrt (<) (butlast ds @ [last ds])" by simp
  then have c: "\<forall>x\<in>set (butlast ds). x < last ds"
    by (simp add: sorted_wrt_append)
  have "\<not> last ds < x" if "x \<in> set ds" for x
  proof -
    from that ds have "x \<in> set (butlast ds) \<or> x = last ds"
      by (metis Un_iff insert_iff list.set(2) set_append empty_set empty_iff)
    with c show ?thesis by auto
  qed
  then have 1: "filter (\<lambda>k. last ds < k) ds = []"
    by (simp add: filter_empty_conv)
  have "last ds \<in> set ds" using False by simp
  with a have "\<forall>y\<in>set rs. last ds < y" by blast
  then have 2: "filter (\<lambda>k. last ds < k) rs = rs"
    by (simp add: filter_id_conv)
  from False 1 2 show ?thesis
    by (simp add: follows_Some)
qed

lemma store_response:
  assumes "state_getKeysPaged e = store_getKeysPaged all_keys"
    and "keys_under all_keys prefix = ds @ rs" and "sorted_wrt (<) (ds @ rs)"
  shows "state_getKeysPaged e prefix n (if ds = [] then None else Some (last ds)) at = take n rs"
proof -
  have "filter (\<lambda>key. startsWith key prefix \<and> follows c key) all_keys
        = filter (follows c) (keys_under all_keys prefix)" for c
    by (simp add: keys_under_def conj_commute)
  then show ?thesis
    using cursor_of_filter [OF assms(3)] by (simp add: assms(1,2) store_getKeysPaged_def)
qed

lemma store_pages:
  assumes e: "state_getKeysPaged e = store_getKeysPaged all_keys" and p: "1 \<le> pageSize e"
  shows "keys_under all_keys prefix = ds @ rs \<Longrightarrow> sorted_wrt (<) (ds @ rs) \<Longrightarrow>
         \<exists>pgs. leaf_pages e prefix at (if ds = [] then None else Some (last ds)) = Some pgs
           \<and> concat (map snd pgs) = rs
           \<and> length pgs = length rs div pageSize e + 1
           \<and> full_then_short (pageSize e) pgs
           \<and> fst (hd pgs) = (if ds = [] then None else Some (last ds))
           \<and> cursors_follow pgs"
proof (induction "length rs" arbitrary: ds rs rule: less_induct)
  case less
  let ?P = "pageSize e"
  let ?c = "if ds = [] then None else Some (last ds)"
  have keys: "state_getKeysPaged e prefix ?P ?c at = take ?P rs"
    by (rule store_response [OF e less.prems])
  show ?case
  proof (cases "length rs < ?P")
    case True
    then have "leaf_pages e prefix at ?c = Some [(?c, rs)]"
      by (subst leaf_pages_unfold) (simp add: keys)
    with True show ?thesis by simp
  next
    case False
    let ?ds' = "ds @ take ?P rs" and ?rs' = "drop ?P rs"
    have ne: "take ?P rs \<noteq> []" using False p by (cases rs) auto
    have len: "length (take ?P rs) = ?P" using False by simp
    have c': "next_cursor e prefix at ?c = (if ?ds' = [] then None else Some (last ?ds'))"
      using ne by (simp add: next_cursor_def keys Let_def del: take_eq_Nil)
    have "length ?rs' < length rs" using False p by simp
    moreover have "keys_under all_keys prefix = ?ds' @ ?rs'" using less.prems by simp
    moreover have "sorted_wrt (<) (?ds' @ ?rs')" using less.prems by simp
    ultimately obtain pgs where
      ih: "leaf_pages e prefix at (if ?ds' = [] then None else Some (last ?ds')) = Some pgs"
          "concat (map snd pgs) = ?rs'" "length pgs = length ?rs' div ?P + 1"
          "full_then_short ?P pgs"
          "fst (hd pgs) = (if ?ds' = [] then None else Some (last ?ds'))" "cursors_follow pgs"
      using less.hyps [of ?rs' ?ds'] by blast
    have pgs_ne: "pgs \<noteq> []" using ih(4) by auto
    have lp: "leaf_pages e prefix at ?c = Some ((?c, take ?P rs) # pgs)"
      using False ih(1) by (subst leaf_pages_unfold) (simp add: keys c' del: take_eq_Nil)
    have "length rs div ?P = Suc ((length rs - ?P) div ?P)"
      using False p by (simp add: le_div_geq)
    then have n: "length ((?c, take ?P rs) # pgs) = length rs div ?P + 1"
      using ih(3) by simp
    have fs: "full_then_short ?P ((?c, take ?P rs) # pgs)"
      using pgs_ne ih(4) len by (cases pgs) simp_all
    have cf: "cursors_follow ((?c, take ?P rs) # pgs)"
      using pgs_ne ih(5,6) ne by (cases pgs) (simp_all del: take_eq_Nil)
    from lp n fs cf ih(2) show ?thesis
      by (intro exI [of _ "(?c, take ?P rs) # pgs"]) simp
  qed
qed


lemma page_at_Suc:
  "page_at e prefix at c (Suc i) = page_at e prefix at (next_cursor e prefix at c) i"
  by (simp add: page_at_def)

lemma page_at_0: "page_at e prefix at c 0 = state_getKeysPaged e prefix (pageSize e) c at"
  by (simp add: page_at_def)

lemma short_page_terminates:
  "length (page_at e prefix at c i) < pageSize e \<Longrightarrow> leaf_pages e prefix at c \<noteq> None"
proof (induction i arbitrary: c)
  case 0
  then show ?case by (subst leaf_pages_unfold) (simp add: page_at_0)
next
  case (Suc i)
  from Suc.IH [of "next_cursor e prefix at c"] Suc.prems
  have "leaf_pages e prefix at (next_cursor e prefix at c) \<noteq> None"
    by (simp add: page_at_Suc)
  then show ?case by (subst leaf_pages_unfold) auto
qed

lemma leaf_pages_shape:
  "leaf_pages e prefix at c = Some pgs \<Longrightarrow>
     pgs \<noteq> [] \<and> fst (hd pgs) = c \<and> cursors_follow pgs
     \<and> length (snd (last pgs)) < pageSize e
     \<and> (\<forall>pg\<in>set (butlast pgs). \<not> length (snd pg) < pageSize e)
     \<and> (\<exists>i. length (page_at e prefix at c i) < pageSize e)"
proof (induct rule: leaf_pages.raw_induct [rotated, consumes 1])
  case (1 rec e prefix at c pgs)
  let ?keys = "state_getKeysPaged e prefix (pageSize e) c at"
  show ?case
  proof (cases "length ?keys < pageSize e")
    case True
    with 1(2) have "pgs = [(c, ?keys)]" by (simp add: Let_def)
    moreover have "\<exists>i. length (page_at e prefix at c i) < pageSize e"
      using True by (intro exI [of _ 0]) (simp add: page_at_0)
    ultimately show ?thesis using True by simp
  next
    case False
    with 1(2) obtain pgs' where
      r: "rec e prefix at (next_cursor e prefix at c) = Some pgs'" and p: "pgs = (c, ?keys) # pgs'"
      by (auto simp: Let_def next_cursor_def bind_eq_Some_conv)
    from 1(1) [OF r] have ih: "pgs' \<noteq> []" "fst (hd pgs') = next_cursor e prefix at c"
      "cursors_follow pgs'" "length (snd (last pgs')) < pageSize e"
      "\<forall>pg\<in>set (butlast pgs'). \<not> length (snd pg) < pageSize e"
      "\<exists>i. length (page_at e prefix at (next_cursor e prefix at c) i) < pageSize e"
      by simp_all
    from ih(4) False have "?keys \<noteq> []" by auto
    then have nc: "next_cursor e prefix at c = Some (last ?keys)"
      by (simp add: next_cursor_def)
    have cf: "cursors_follow pgs"
      using ih(1,2,3) nc by (cases pgs') (simp_all add: p)
    from ih(6) obtain i where "length (page_at e prefix at (next_cursor e prefix at c) i) < pageSize e"
      by blast
    then have "length (page_at e prefix at c (Suc i)) < pageSize e"
      by (simp add: page_at_Suc)
    then have "\<exists>i. length (page_at e prefix at c i) < pageSize e" by blast
    with cf ih False show ?thesis by (simp add: p)
  qed
qed

lemma leaf_loop_terminates_iff:
  "leaf_loop e prefix at c s \<noteq> None \<longleftrightarrow> (\<exists>i. length (page_at e prefix at c i) < pageSize e)"
proof
  assume "leaf_loop e prefix at c s \<noteq> None"
  then obtain pgs where "leaf_pages e prefix at c = Some pgs"
    by (auto simp: leaf_loop_eq)
  from leaf_pages_shape [OF this] show "\<exists>i. length (page_at e prefix at c i) < pageSize e"
    by simp
next
  assume "\<exists>i. length (page_at e prefix at c i) < pageSize e"
  then have "leaf_pages e prefix at c \<noteq> None"
    by (auto dest: short_page_terminates)
  then show "leaf_loop e prefix at c s \<noteq> None"
    by (auto simp: leaf_loop_eq)
qed

lemma calls_arith:
  assumes "1 \<le> (p::nat)"
  shows "n div p + 1 = (if n mod p = 0 then (n + p - 1) div p + 1 else (n + p - 1) div p)"
proof -
  define q r where "q = n div p" and "r = n mod p"
  have n: "n = q * p + r" and r: "r < p"
    using assms by (simp_all add: q_def r_def)
  show ?thesis
  proof (cases "r = 0")
    case True
    then have "n + p - 1 = q * p + (p - 1)" using assms n by simp
    then have "(n + p - 1) div p = q + (p - 1) div p"
      using assms by (metis div_mult_self3 not_one_le_zero)
    with True assms show ?thesis by (simp add: q_def r_def [symmetric])
  next
    case False
    then have "n + p - 1 = (q + 1) * p + (r - 1)" using n by (simp add: algebra_simps)
    then have "(n + p - 1) div p = (q + 1) + (r - 1) div p"
      using assms by (metis div_mult_self3 not_one_le_zero)
    moreover have "r - 1 < p" using r by simp
    ultimately show ?thesis using False by (simp add: q_def r_def [symmetric])
  qed
qed

lemma fetch_pairs_keys_image: "image_mset fst (mset (fetch_pairs e at keys)) = mset keys"
  using fetch_pairs_keys [of e at keys] by simp

lemma pairs_keys_mset:
  "mset (map fst (concat (map (\<lambda>pg. fetch_pairs e at (snd pg)) pgs))) = mset (concat (map snd pgs))"
  by (induction pgs) (simp_all add: fetch_pairs_keys_image)

lemma example_sorted: "sorted_wrt (<) [''0x00aa'', ''0x00ab'', ''0x00ac'', ''0x01aa'', ''0xff00'']"
  by (simp add: less_char_def)

lemma example_keys_under:
  "keys_under [''0x00aa'', ''0x00ab'', ''0x00ac'', ''0x01aa'', ''0xff00''] ''0x00'' = [''0x00aa'', ''0x00ab'', ''0x00ac'']"
  by (simp add: keys_under_def startsWith_def)

text \<open>
  C2. Whatever the node answers, the loop of a leaf ends if and only if some listing
  request of the traversal returns fewer than \<open>pageSize\<close> keys; when it ends, the
  first request carries the cursor it started with, every later one the last key of
  the page before, the last page is short and no earlier page is. Against a store
  that holds its keys in ascending order and answers as the specification says, with
  \<open>pageSize\<close> at least 1 and \<open>n\<close> keys under the prefix, the loop ends after
  \<open>n div pageSize + 1\<close> listing requests, which is \<open>ceil(n / pageSize)\<close>, plus one when
  \<open>n\<close> is a multiple of \<open>pageSize\<close>; every page but the last is full; and the keys
  written are exactly the \<open>n\<close> distinct keys under the prefix.
\<close>

theorem paged_fetch:
  "(leaf_loop e prefix at c s \<noteq> None \<longleftrightarrow> (\<exists>i. length (page_at e prefix at c i) < pageSize e))
   \<and> (leaf_loop e prefix at c s = Some s' \<longrightarrow>
        (\<exists>pgs. leaf_pages e prefix at c = Some pgs \<and> s' = apply_pages e prefix at pgs s
           \<and> listing_calls (rpc_log s') = listing_calls (rpc_log s)
                @ map (\<lambda>pg. GetKeysPaged prefix (pageSize e) (fst pg) at) pgs
           \<and> fst (hd pgs) = c \<and> cursors_follow pgs
           \<and> length (snd (last pgs)) < pageSize e
           \<and> (\<forall>pg\<in>set (butlast pgs). \<not> length (snd pg) < pageSize e)))
   \<and> (sorted_wrt (<) all_keys \<and> 1 \<le> pageSize e
        \<and> state_getKeysPaged e = store_getKeysPaged all_keys \<longrightarrow>
        (\<exists>pgs s'. leaf_pages e prefix at None = Some pgs \<and> leaf_loop e prefix at None s = Some s'
           \<and> length pgs =
               (let n = length (keys_under all_keys prefix); p = pageSize e
                in if n mod p = 0 then (n + p - 1) div p + 1 else (n + p - 1) div p)
           \<and> listing_calls (rpc_log s') = listing_calls (rpc_log s)
                @ map (\<lambda>pg. GetKeysPaged prefix (pageSize e) (fst pg) at) pgs
           \<and> fst (hd pgs) = None \<and> cursors_follow pgs
           \<and> full_then_short (pageSize e) pgs
           \<and> concat (map snd pgs) = keys_under all_keys prefix
           \<and> distinct (keys_under all_keys prefix)
           \<and> mset (map fst (entries (stream s')))
               = mset (map fst (entries (stream s))) + mset (keys_under all_keys prefix)))"
proof (intro conjI impI)
  show "leaf_loop e prefix at c s \<noteq> None \<longleftrightarrow> (\<exists>i. length (page_at e prefix at c i) < pageSize e)"
    by (rule leaf_loop_terminates_iff)
next
  assume run: "leaf_loop e prefix at c s = Some s'"
  then obtain pgs where pgs: "leaf_pages e prefix at c = Some pgs"
    and s': "s' = apply_pages e prefix at pgs s"
    by (auto simp: leaf_loop_eq)
  from leaf_pages_shape [OF pgs] pgs s'
  show "\<exists>pgs. leaf_pages e prefix at c = Some pgs \<and> s' = apply_pages e prefix at pgs s
           \<and> listing_calls (rpc_log s') = listing_calls (rpc_log s)
                @ map (\<lambda>pg. GetKeysPaged prefix (pageSize e) (fst pg) at) pgs
           \<and> fst (hd pgs) = c \<and> cursors_follow pgs
           \<and> length (snd (last pgs)) < pageSize e
           \<and> (\<forall>pg\<in>set (butlast pgs). \<not> length (snd pg) < pageSize e)"
    by (intro exI [of _ pgs]) (simp add: apply_pages_listing)
next
  assume a: "sorted_wrt (<) all_keys \<and> 1 \<le> pageSize e
        \<and> state_getKeysPaged e = store_getKeysPaged all_keys"
  let ?ks = "keys_under all_keys prefix"
  have sorted: "sorted_wrt (<) ?ks"
    using a by (simp add: keys_under_def sorted_wrt_filter)
  then have dist: "distinct ?ks"
    by (simp add: strict_sorted_iff)
  from a sorted store_pages [of e all_keys prefix "[]" ?ks at]
  obtain pgs where pgs: "leaf_pages e prefix at None = Some pgs"
    and ks: "concat (map snd pgs) = ?ks"
    and n: "length pgs = length ?ks div pageSize e + 1"
    and shape: "full_then_short (pageSize e) pgs" "fst (hd pgs) = None" "cursors_follow pgs"
    by auto
  let ?s' = "apply_pages e prefix at pgs s"
  have run: "leaf_loop e prefix at None s = Some ?s'"
    using pgs by (rule leaf_pages_loop)
  have count: "length pgs =
               (let n = length ?ks; p = pageSize e
                in if n mod p = 0 then (n + p - 1) div p + 1 else (n + p - 1) div p)"
    using a calls_arith [of "pageSize e" "length ?ks"] n by (simp add: Let_def)
  have keys: "mset (map fst (entries (stream ?s'))) = mset (map fst (entries (stream s))) + mset ?ks"
    by (simp add: apply_pages_entries pairs_keys_mset ks del: mset_map)
  from pgs run count shape ks dist keys
  show "\<exists>pgs s'. leaf_pages e prefix at None = Some pgs \<and> leaf_loop e prefix at None s = Some s'
           \<and> length pgs =
               (let n = length (keys_under all_keys prefix); p = pageSize e
                in if n mod p = 0 then (n + p - 1) div p + 1 else (n + p - 1) div p)
           \<and> listing_calls (rpc_log s') = listing_calls (rpc_log s)
                @ map (\<lambda>pg. GetKeysPaged prefix (pageSize e) (fst pg) at) pgs
           \<and> fst (hd pgs) = None \<and> cursors_follow pgs
           \<and> full_then_short (pageSize e) pgs
           \<and> concat (map snd pgs) = keys_under all_keys prefix
           \<and> distinct (keys_under all_keys prefix)
           \<and> mset (map fst (entries (stream s')))
               = mset (map fst (entries (stream s))) + mset (keys_under all_keys prefix)"
    by (intro exI [of _ pgs] exI [of _ ?s']) (simp add: apply_pages_listing)
qed


lemma example_store: "state_getKeysPaged example_env = store_getKeysPaged [''0x00aa'', ''0x00ab'', ''0x00ac'', ''0x01aa'', ''0xff00'']"
  by (simp add: example_env_def)

lemma example_leaf_pages:
  "leaf_pages example_env ''0x00'' ''0xb10c'' None =
     Some [(None, [''0x00aa'', ''0x00ab'']), (Some ''0x00ab'', [''0x00ac''])]"
  by (simp add: leaf_pages_unfold next_cursor_def example_env_def store_getKeysPaged_def
      startsWith_def follows_def less_char_def)

theorem paged_fetch_witness:
  "leaf_loop example_env ''0x00'' ''0xb10c'' None example_state \<noteq> None
   \<and> length (listing_calls (rpc_log (the (leaf_loop example_env ''0x00'' ''0xb10c'' None example_state)))) = 2
   \<and> mset (map fst (entries (stream (the (leaf_loop example_env ''0x00'' ''0xb10c'' None example_state)))))
       = mset [''0x00aa'', ''0x00ab'', ''0x00ac'']
   \<and> map_option (\<lambda>pgs. fst (hd pgs)) (leaf_pages example_env ''0x00'' ''0xb10c'' None) = Some None"
proof -
  let ?run = "leaf_loop example_env ''0x00'' ''0xb10c'' None example_state"
  note inst = paged_fetch [where e = example_env and prefix = "''0x00''" and at = "''0xb10c''"
      and c = None and s = example_state and s' = "the ?run"
      and all_keys = "[''0x00aa'', ''0x00ab'', ''0x00ac'', ''0x01aa'', ''0xff00'']"]
  have p: "pageSize example_env = 2" by (simp add: example_env_def)
  have hyp: "sorted_wrt (<) [''0x00aa'', ''0x00ab'', ''0x00ac'', ''0x01aa'', ''0xff00'']
      \<and> 1 \<le> pageSize example_env
      \<and> state_getKeysPaged example_env = store_getKeysPaged [''0x00aa'', ''0x00ab'', ''0x00ac'', ''0x01aa'', ''0xff00'']"
    using example_sorted example_store by (simp add: p)
  from inst [THEN conjunct2, THEN conjunct2, THEN mp, OF hyp]
  have 1: "?run \<noteq> None
      \<and> length (listing_calls (rpc_log (the ?run))) = 2
      \<and> mset (map fst (entries (stream (the ?run)))) = mset [''0x00aa'', ''0x00ab'', ''0x00ac'']"
    by (auto simp: example_keys_under p example_state_def listing_calls_def)
  then have "?run = Some (the ?run)" by simp
  from inst [THEN conjunct2, THEN conjunct1, THEN mp, OF this]
  have 2: "map_option (\<lambda>pgs. fst (hd pgs)) (leaf_pages example_env ''0x00'' ''0xb10c'' None) = Some None"
    by auto
  from 1 2 show ?thesis by simp
qed

subsection \<open>Keys without a value\<close>

text \<open>
  C9. A key of the listing whose value request returns \<open>null\<close> is written with the
  value \<open>null\<close>: no key of a page is dropped, and the pair is in the stream when the
  traversal ends. The values play no part in the control flow: with any other answers
  to the value requests the traversal makes the same listing requests and ends in the
  same cases.
\<close>

theorem absent_values_recorded:
  "(key \<in> set keys \<and> state_getStorage e key at = Null \<longrightarrow> (key, Null) \<in> set (fetch_pairs e at keys))
   \<and> length (fetch_pairs e at keys) = length keys
   \<and> (leaf_loop e prefix at c s = Some s' \<and> leaf_pages e prefix at c = Some pgs \<and> pg \<in> set pgs
        \<and> key \<in> set (snd pg) \<and> state_getStorage e key at = Null
        \<longrightarrow> (key, Null) \<in> set (entries (stream s')))
   \<and> leaf_pages (e\<lparr>state_getStorage := g\<rparr>) prefix at c = leaf_pages e prefix at c
   \<and> (leaf_loop (e\<lparr>state_getStorage := g\<rparr>) prefix at c s = None \<longleftrightarrow> leaf_loop e prefix at c s = None)"
proof (intro conjI impI)
  show "(key, Null) \<in> set (fetch_pairs e at keys)"
    if "key \<in> set keys \<and> state_getStorage e key at = Null"
    using that by (force simp: fetch_pairs_set)
  show "length (fetch_pairs e at keys) = length keys"
    by (simp add: fetch_pairs_def)
  show "(key, Null) \<in> set (entries (stream s'))"
    if h: "leaf_loop e prefix at c s = Some s' \<and> leaf_pages e prefix at c = Some pgs \<and> pg \<in> set pgs
        \<and> key \<in> set (snd pg) \<and> state_getStorage e key at = Null"
  proof -
    from h have "s' = apply_pages e prefix at pgs s"
      by (auto simp: leaf_loop_eq)
    moreover from h have "(key, Null) \<in> set (fetch_pairs e at (snd pg))"
      by (force simp: fetch_pairs_set)
    ultimately show ?thesis
      using h by (auto simp: apply_pages_entries)
  qed
  show pages: "leaf_pages (e\<lparr>state_getStorage := g\<rparr>) prefix at c = leaf_pages e prefix at c"
    by (rule leaf_pages_cong) simp_all
  show "leaf_loop (e\<lparr>state_getStorage := g\<rparr>) prefix at c s = None \<longleftrightarrow> leaf_loop e prefix at c s = None"
    by (simp add: leaf_loop_eq pages)
qed

theorem absent_values_recorded_witness:
  "state_getStorage example_env ''0x00ab'' ''0xb10c'' = Null
   \<and> (''0x00ab'', Null) \<in> set (entries (stream (the (leaf_loop example_env ''0x00'' ''0xb10c'' None example_state))))
   \<and> leaf_loop example_env ''0x00'' ''0xb10c'' None example_state \<noteq> None"
proof -
  let ?run = "leaf_loop example_env ''0x00'' ''0xb10c'' None example_state"
  let ?pgs = "[(None, [''0x00aa'', ''0x00ab'']), (Some ''0x00ab'', [''0x00ac''])]"
  have "?run = Some (apply_pages example_env ''0x00'' ''0xb10c'' ?pgs example_state)"
    by (simp add: leaf_loop_eq example_leaf_pages)
  then have run: "?run = Some (the ?run)" and ne: "?run \<noteq> None"
    by simp_all
  have null: "state_getStorage example_env ''0x00ab'' ''0xb10c'' = Null"
    by (simp add: example_env_def)
  from absent_values_recorded [where e = example_env and prefix = "''0x00''" and at = "''0xb10c''"
      and c = None and s = example_state and s' = "the ?run" and pgs = ?pgs
      and pg = "(None, [''0x00aa'', ''0x00ab''])" and key = "''0x00ab''" and keys = "[''0x00aa'', ''0x00ab'']"]
    run null example_leaf_pages
  have "(''0x00ab'', Null) \<in> set (entries (stream (the ?run)))"
    by simp
  with ne null show ?thesis
    by blast
qed

subsection \<open>The leaves of the traversal\<close>





lemma hexdump_Nil: "hexdump [] = []"
  by (simp add: hexdump_def)

lemma hexdump_Cons: "hexdump (b # bs) = padStart (toString16 b) 2 (CHR ''0'') @ hexdump bs"
  by (simp add: hexdump_def)

lemma hexdump_append: "hexdump (as @ bs) = hexdump as @ hexdump bs"
  by (simp add: hexdump_def)




lemma child_hexdump: "child prefix i = prefix @ hexdump [i]"
  by (simp add: child_def hexdump_def)


lemma length_byte_strings: "length (byte_strings n) = 256 ^ n"
  by (induction n) (simp_all add: length_concat comp_def sum_list_triv)




lemma leaf_prefixes_eq:
  "leaf_prefixes prefix l = map (\<lambda>bs. prefix @ hexdump bs) (byte_strings (nat l))"
proof (induction prefix l rule: leaf_prefixes.induct)
  case (1 prefix l)
  show ?case
  proof (cases "l \<le> 0")
    case True
    then show ?thesis
      by (subst leaf_prefixes.simps) (simp add: hexdump_Nil)
  next
    case False
    then have n: "nat l = Suc (nat (l - 1))" by simp
    have "leaf_prefixes prefix l =
            concat (map (\<lambda>i. leaf_prefixes (child prefix i) (l - 1)) [0..<256])"
      using False by (subst leaf_prefixes.simps) simp
    also have "\<dots> = concat (map (\<lambda>i. map (\<lambda>bs. child prefix i @ hexdump bs) (byte_strings (nat (l - 1)))) [0..<256])"
    proof -
      have "map (\<lambda>i. leaf_prefixes (child prefix i) (l - 1)) [0..<256]
            = map (\<lambda>i. map (\<lambda>bs. child prefix i @ hexdump bs) (byte_strings (nat (l - 1)))) [0..<256]"
        by (rule map_cong [OF refl]) (use 1 [OF False] in simp)
      then show ?thesis by (rule arg_cong)
    qed
    also have "\<dots> = map (\<lambda>bs. prefix @ hexdump bs) (byte_strings (Suc (nat (l - 1))))"
      by (simp add: map_concat comp_def child_hexdump hexdump_Cons hexdump_Nil)
    finally show ?thesis by (simp only: n)
  qed
qed





lemma for_each_single: "for_each [x] f s = f x s"
  by (simp split: option.splits)







lemma length_leaf_prefixes: "length (leaf_prefixes prefix l) = 256 ^ nat l"
  by (simp add: leaf_prefixes_eq length_byte_strings)

lemma leaf_prefixes_one: "leaf_prefixes p 1 = map (child p) [0..<256]"
  by (subst leaf_prefixes.simps, subst leaf_prefixes.simps) (simp add: map_concat comp_def)

subsection \<open>What a traversal adds to the stream\<close>

lemma parse_rest:
  "[] \<notin> set bs \<Longrightarrow> parse_elems (concat (map (\<lambda>b. [Comma, Elems b]) bs) @ [RBracket]) = Some (concat bs)"
  by (induction bs) auto

lemma entries_rest: "entries (concat (map (\<lambda>b. [Comma, Elems b]) bs)) = concat bs"
  by (induction bs) auto

lemma parse_tokens_of:
  "[] \<notin> set bs \<Longrightarrow> parse_snapshot (tokens_of bs @ [RBracket]) = Some (concat bs)"
  by (cases bs) (auto simp: tokens_of_def parse_rest)

lemma entries_tokens_of: "entries (tokens_of bs) = concat bs"
  by (cases bs) (simp_all add: tokens_of_def entries_rest)

lemma wf_stream_parse:
  "wf_stream s \<Longrightarrow> parse_snapshot (stream s @ [RBracket]) = Some (entries (stream s))"
  by (auto simp: wf_stream_def parse_tokens_of entries_tokens_of)

lemma tokens_of_snoc:
  "tokens_of (bs @ [b]) = tokens_of bs @ (if bs = [] then [] else [Comma]) @ [Elems b]"
  by (cases bs) (simp_all add: tokens_of_def)

lemma wf_write_pairs:
  assumes "wf_stream s" "ps \<noteq> []"
  shows "wf_stream (write_pairs ps s)"
proof -
  from assms(1) obtain bs where bs: "[] \<notin> set bs" "stream s = tokens_of bs" "separator s \<longleftrightarrow> bs \<noteq> []"
    by (auto simp: wf_stream_def)
  have "stream (write_pairs ps s) = tokens_of (bs @ [ps])"
    using bs by (simp add: write_pairs_fields tokens_of_snoc)
  moreover have "[] \<notin> set (bs @ [ps])" using bs assms(2) by auto
  ultimately show ?thesis
    unfolding wf_stream_def
    by (intro exI [of _ "bs @ [ps]"]) (simp add: write_pairs_fields)
qed

lemma fetch_pairs_empty_iff: "fetch_pairs e at keys = [] \<longleftrightarrow> keys = []"
proof -
  have "length (fetch_pairs e at keys) = length keys"
    by (simp add: fetch_pairs_def)
  then show ?thesis by (metis length_0_conv)
qed

lemma wf_page_effect: "wf_stream s \<Longrightarrow> wf_stream (page_effect e prefix at pg s)"
proof (cases "snd pg = []")
  case True
  assume "wf_stream s"
  with True show ?thesis by (simp add: page_effect_def Let_def wf_stream_def)
next
  case False
  assume "wf_stream s"
  then have "wf_stream (s\<lparr>rpc_log := rpc_log s @ [GetKeysPaged prefix (pageSize e) (fst pg) at]
        @ map (\<lambda>key. GetStorage key at) (snd pg)\<rparr>)"
    by (simp add: wf_stream_def)
  with False show ?thesis
    by (simp add: page_effect_def Let_def wf_write_pairs fetch_pairs_empty_iff)
qed

lemma wf_apply_pages: "wf_stream s \<Longrightarrow> wf_stream (apply_pages e prefix at pgs s)"
  by (induction pgs arbitrary: s) (simp_all add: apply_pages_Nil apply_pages_Cons wf_page_effect)

lemma chunk_done_fields:
  "stream (chunk_done s) = stream s" "chunksFetched (chunk_done s) = Suc (chunksFetched s)"
  "wf_stream (chunk_done s) = wf_stream s" "separator (chunk_done s) = separator s"
  by (simp_all add: chunk_done_def wf_stream_def)

lemma page_effect_mset:
  "mset (entries (stream (page_effect e prefix at pg s))) = mset (entries (stream s)) + pairs_of e at [pg]"
  by (simp add: page_effect_entries pairs_of_def fetch_pairs_mset)

lemma pairs_of_Cons: "pairs_of e at (pg # pgs) = pairs_of e at [pg] + pairs_of e at pgs"
  by (simp add: pairs_of_def)

lemma pairs_of_Nil: "pairs_of e at [] = {#}"
  by (simp add: pairs_of_def)

lemma apply_pages_mset:
  "mset (entries (stream (apply_pages e prefix at pgs s))) = mset (entries (stream s)) + pairs_of e at pgs"
proof (induction pgs arbitrary: s)
  case Nil
  then show ?case by (simp add: apply_pages_Nil pairs_of_Nil)
next
  case (Cons pg pgs)
  show ?case
    by (simp only: apply_pages_Cons Cons page_effect_mset pairs_of_Cons [of e at pg pgs] add.assoc)
qed

lemma adds_I:
  assumes "ok \<Longrightarrow> \<exists>s'. f s = Some s'
                \<and> mset (entries (stream s')) = mset (entries (stream s)) + m
                \<and> chunksFetched s' = chunksFetched s + n
                \<and> (wf_stream s \<longrightarrow> wf_stream s')" 
    and "\<not> ok \<Longrightarrow> f s = None"
  shows "if ok then
             (\<exists>s'. f s = Some s'
                \<and> mset (entries (stream s')) = mset (entries (stream s)) + m
                \<and> chunksFetched s' = chunksFetched s + n
                \<and> (wf_stream s \<longrightarrow> wf_stream s'))
           else f s = None"
  using assms by simp

lemma adds_leaf_from:
  "adds (\<lambda>s. map_option chunk_done (leaf_loop e p at c s)) (leaf_pages e p at c \<noteq> None)
     (case leaf_pages e p at c of None \<Rightarrow> {#} | Some pgs \<Rightarrow> pairs_of e at pgs) 1"
  unfolding adds_def
  by (cases "leaf_pages e p at c")
     (simp_all add: leaf_loop_eq chunk_done_fields apply_pages_mset apply_pages_chunks wf_apply_pages)

lemma adds_leaf:
  "adds (fetch_leaf e p at) (leaf_pages e p at None \<noteq> None) (leaf_entries e at p) 1"
proof -
  have "fetch_leaf e p at = (\<lambda>s. map_option chunk_done (leaf_loop e p at None s))"
    by (rule ext) (simp add: fetch_leaf_def)
  then show ?thesis
    using adds_leaf_from [of e p at None] by (simp add: leaf_entries_def)
qed

lemma adds_for_each:
  assumes "\<And>x. x \<in> set xs \<Longrightarrow> adds (f x) (ok x) (m x) (n x)"
  shows "adds (for_each xs f) (\<forall>x\<in>set xs. ok x) (sum_list (map m xs)) (sum_list (map n xs))"
  using assms
proof (induction xs)
  case Nil
  then show ?case by (simp add: adds_def)
next
  case (Cons x xs)
  have x: "adds (f x) (ok x) (m x) (n x)" using Cons.prems by simp
  have xs: "adds (for_each xs f) (\<forall>x\<in>set xs. ok x) (sum_list (map m xs)) (sum_list (map n xs))"
    using Cons by simp
  show ?case
    unfolding adds_def
  proof (intro allI)
    fix s
    show "if \<forall>y\<in>set (x # xs). ok y
          then \<exists>s'. for_each (x # xs) f s = Some s'
                \<and> mset (entries (stream s')) = mset (entries (stream s)) + sum_list (map m (x # xs))
                \<and> chunksFetched s' = chunksFetched s + sum_list (map n (x # xs))
                \<and> (wf_stream s \<longrightarrow> wf_stream s')
          else for_each (x # xs) f s = None"
    proof (cases "ok x")
      case False
      with x have "f x s = None" by (simp add: adds_def)
      with False show ?thesis by simp
    next
      case True
      with x obtain s1 where s1: "f x s = Some s1"
        "mset (entries (stream s1)) = mset (entries (stream s)) + m x"
        "chunksFetched s1 = chunksFetched s + n x" "wf_stream s \<longrightarrow> wf_stream s1"
        unfolding adds_def by (metis (full_types))
      show ?thesis
      proof (cases "\<forall>y\<in>set xs. ok y")
        case False
        with xs have "for_each xs f s1 = None" by (simp add: adds_def)
        with False s1 show ?thesis by simp
      next
        case all: True
        with xs obtain s2 where s2: "for_each xs f s1 = Some s2"
          "mset (entries (stream s2)) = mset (entries (stream s1)) + sum_list (map m xs)"
          "chunksFetched s2 = chunksFetched s1 + sum_list (map n xs)" "wf_stream s1 \<longrightarrow> wf_stream s2"
          unfolding adds_def by (metis (full_types))
        from True all s1 s2 show ?thesis
          by (simp add: add.assoc)
      qed
    qed
  qed
qed

lemma adds_task_finish:
  "adds (task_finish e at t) (task_ok e at t) (task_entries e at t) (task_count t)"
proof (cases t)
  case (fields p c fin)
  show ?thesis
  proof (cases fin)
    case True
    then show ?thesis
      by (simp add: fields adds_def task_finish_def task_ok_def task_entries_def task_count_def)
  next
    case False
    have "task_finish e at t = (\<lambda>s. map_option chunk_done (leaf_loop e p at c s))"
      by (rule ext) (simp add: fields False task_finish_def)
    then show ?thesis
      using adds_leaf_from [of e p at c]
      by (simp add: fields False task_ok_def task_entries_def task_count_def)
  qed
qed

lemma leaf_pages_short:
  "length (state_getKeysPaged e p (pageSize e) c at) < pageSize e \<Longrightarrow>
     leaf_pages e p at c = Some [(c, state_getKeysPaged e p (pageSize e) c at)]"
  by (subst leaf_pages_unfold) simp

lemma leaf_pages_full:
  "\<not> length (state_getKeysPaged e p (pageSize e) c at) < pageSize e \<Longrightarrow>
     leaf_pages e p at c =
       map_option ((#) (c, state_getKeysPaged e p (pageSize e) c at))
         (leaf_pages e p at (next_cursor e p at c))"
  by (subst leaf_pages_unfold) (cases "leaf_pages e p at (next_cursor e p at c)"; simp)

lemma task_step_effect:
  assumes "\<not> snd (snd t)" and "task_step e at t s = (t', s')"
  shows "task_ok e at t' = task_ok e at t"
    and "task_ok e at t \<Longrightarrow>
          mset (entries (stream s')) + task_entries e at t' = mset (entries (stream s)) + task_entries e at t"
    and "task_ok e at t \<Longrightarrow> chunksFetched s' + task_count t' = chunksFetched s + task_count t"
    and "wf_stream s \<Longrightarrow> wf_stream s'"
proof -
  obtain p c where t: "t = (p, c, False)" using assms(1) by (cases t) auto
  let ?keys = "state_getKeysPaged e p (pageSize e) c at"
  let ?s1 = "page_effect e p at (c, ?keys) s"
  let ?c' = "next_cursor e p at c"
  have all: "task_ok e at t' = task_ok e at t
      \<and> (task_ok e at t \<longrightarrow>
          mset (entries (stream s')) + task_entries e at t' = mset (entries (stream s)) + task_entries e at t
          \<and> chunksFetched s' + task_count t' = chunksFetched s + task_count t)
      \<and> (wf_stream s \<longrightarrow> wf_stream s')"
  proof (cases "length ?keys < pageSize e")
    case True
    then have "t' = (p, ?c', True)" "s' = chunk_done ?s1"
      using assms(2) by (simp_all add: t task_step_def leaf_iter_eq)
    then show ?thesis
      by (simp add: t task_ok_def task_entries_def task_count_def leaf_pages_short [OF True]
          chunk_done_fields page_effect_mset page_effect_chunks wf_page_effect)
  next
    case False
    then have t': "t' = (p, ?c', False)" "s' = ?s1"
      using assms(2) by (simp_all add: t task_step_def leaf_iter_eq)
    show ?thesis
    proof (cases "leaf_pages e p at ?c'")
      case None
      then show ?thesis
        by (simp add: t t' task_ok_def leaf_pages_full [OF False] wf_page_effect)
    next
      case (Some pgs)
      then show ?thesis
        by (simp add: t t' task_ok_def task_entries_def task_count_def leaf_pages_full [OF False]
            page_effect_mset page_effect_chunks wf_page_effect
            pairs_of_Cons [of e at "(c, ?keys)" pgs])
    qed
  qed
  from all show "task_ok e at t' = task_ok e at t" by simp
  from all show "mset (entries (stream s')) + task_entries e at t' = mset (entries (stream s)) + task_entries e at t"
    if "task_ok e at t" using that by simp
  from all show "chunksFetched s' + task_count t' = chunksFetched s + task_count t"
    if "task_ok e at t" using that by simp
  from all show "wf_stream s'" if "wf_stream s" using that by simp
qed

lemma sum_list_map_update:
  fixes g :: "'a \<Rightarrow> 'b::comm_monoid_add"
  shows "i < length xs \<Longrightarrow> sum_list (map g (xs[i := y])) + g (xs ! i) = sum_list (map g xs) + g y"
proof (induction xs arbitrary: i)
  case Nil
  then show ?case by simp
next
  case (Cons x xs)
  show ?case
  proof (cases i)
    case 0
    then show ?thesis by (simp add: add.commute add.left_commute)
  next
    case (Suc j)
    with Cons.prems have "j < length xs" by simp
    from Cons.IH [OF this] show ?thesis
      by (simp add: Suc add.assoc)
  qed
qed

lemma all_update:
  "i < length xs \<Longrightarrow> P y = P (xs ! i) \<Longrightarrow> (\<forall>x\<in>set (xs[i := y]). P x) = (\<forall>x\<in>set xs. P x)"
  by (simp add: all_set_conv_all_nth nth_list_update) (metis)

lemma run_schedule_effect:
  "run_schedule e at sched ts s = (ts', s') \<Longrightarrow>
     ((\<forall>t\<in>set ts'. task_ok e at t) = (\<forall>t\<in>set ts. task_ok e at t))
     \<and> ((\<forall>t\<in>set ts. task_ok e at t) \<longrightarrow>
           mset (entries (stream s')) + sum_list (map (task_entries e at) ts')
             = mset (entries (stream s)) + sum_list (map (task_entries e at) ts)
         \<and> chunksFetched s' + sum_list (map task_count ts')
             = chunksFetched s + sum_list (map task_count ts))
     \<and> (wf_stream s \<longrightarrow> wf_stream s')"
proof (induction sched arbitrary: ts s)
  case Nil
  then show ?case by simp
next
  case (Cons i sched)
  show ?case
  proof (cases "i < length ts \<and> \<not> snd (snd (ts ! i))")
    case False
    with Cons.prems have "run_schedule e at sched ts s = (ts', s')" by auto
    from Cons.IH [OF this] show ?thesis .
  next
    case True
    obtain t1 s1 where step: "task_step e at (ts ! i) s = (t1, s1)"
      by (cases "task_step e at (ts ! i) s")
    with True Cons.prems have run: "run_schedule e at sched (ts[i := t1]) s1 = (ts', s')"
      by simp
    from True have i: "i < length ts" and nf: "\<not> snd (snd (ts ! i))" by simp_all
    note eff = task_step_effect [OF nf step]
    have ok: "(\<forall>t\<in>set (ts[i := t1]). task_ok e at t) = (\<forall>t\<in>set ts. task_ok e at t)"
      using i eff(1) by (rule all_update)
    have m: "sum_list (map (task_entries e at) (ts[i := t1])) + task_entries e at (ts ! i)
            = sum_list (map (task_entries e at) ts) + task_entries e at t1"
      using i by (rule sum_list_map_update)
    have n: "sum_list (map task_count (ts[i := t1])) + task_count (ts ! i)
            = sum_list (map task_count ts) + task_count t1"
      using i by (rule sum_list_map_update)
    note ih = Cons.IH [OF run]
    show ?thesis
    proof (intro conjI impI)
      show "(\<forall>t\<in>set ts'. task_ok e at t) = (\<forall>t\<in>set ts. task_ok e at t)"
        using ih ok by simp
      show "wf_stream s'" if "wf_stream s"
        using ih eff(4) that by simp
    next
      assume all: "\<forall>t\<in>set ts. task_ok e at t"
      then have oki: "task_ok e at (ts ! i)" using i by simp
      from all ok ih have
        a: "mset (entries (stream s')) + sum_list (map (task_entries e at) ts')
             = mset (entries (stream s1)) + sum_list (map (task_entries e at) (ts[i := t1]))" and
        b: "chunksFetched s' + sum_list (map task_count ts')
             = chunksFetched s1 + sum_list (map task_count (ts[i := t1]))"
        by simp_all
      have "mset (entries (stream s')) + sum_list (map (task_entries e at) ts') + task_entries e at (ts ! i)
            = mset (entries (stream s)) + sum_list (map (task_entries e at) ts) + task_entries e at (ts ! i)"
        using a m eff(2) [OF oki] by (simp add: ac_simps)
      then show "mset (entries (stream s')) + sum_list (map (task_entries e at) ts')
             = mset (entries (stream s)) + sum_list (map (task_entries e at) ts)"
        by simp
      have "chunksFetched s' + sum_list (map task_count ts') + task_count (ts ! i)
            = chunksFetched s + sum_list (map task_count ts) + task_count (ts ! i)"
        using b n eff(3) [OF oki] by simp
      then show "chunksFetched s' + sum_list (map task_count ts')
             = chunksFetched s + sum_list (map task_count ts)"
        by simp
    qed
  qed
qed

lemma adds_fan_out:
  "adds (fan_out e prefix at)
     (\<forall>p\<in>set (map (child prefix) [0..<256]). leaf_pages e p at None \<noteq> None)
     (sum_list (map (leaf_entries e at) (map (child prefix) [0..<256])))
     (length (map (child prefix) [0..<256]))"
  unfolding adds_def
proof (intro allI)
  fix s
  let ?ts = "map (\<lambda>i. (child prefix i, None, False)) [0..<256]"
  let ?ok = "\<forall>p\<in>set (map (child prefix) [0..<256]). leaf_pages e p at None \<noteq> None"
  let ?m = "sum_list (map (leaf_entries e at) (map (child prefix) [0..<256]))"
  obtain ts' s1 where run: "run_schedule e at (interleaving e prefix) ?ts s = (ts', s1)"
    by (cases "run_schedule e at (interleaving e prefix) ?ts s")
  have fo: "fan_out e prefix at s = for_each ts' (task_finish e at) s1"
    by (simp add: fan_out_def run)
  have ok0: "(\<forall>t\<in>set ?ts. task_ok e at t) = ?ok"
    by (simp add: task_ok_def)
  have m0: "sum_list (map (task_entries e at) ?ts) = ?m"
    by (simp add: comp_def task_entries_def leaf_entries_def)
  have n0: "sum_list (map task_count ?ts) = 256"
    by (simp add: comp_def task_count_def sum_list_triv)
  note eff = run_schedule_effect [OF run]
  have fin: "adds (for_each ts' (task_finish e at)) (\<forall>t\<in>set ts'. task_ok e at t)
      (sum_list (map (task_entries e at) ts')) (sum_list (map task_count ts'))"
    by (rule adds_for_each) (rule adds_task_finish)
  show "if ?ok
        then \<exists>s'. fan_out e prefix at s = Some s'
              \<and> mset (entries (stream s')) = mset (entries (stream s)) + ?m
              \<and> chunksFetched s' = chunksFetched s + length (map (child prefix) [0..<256])
              \<and> (wf_stream s \<longrightarrow> wf_stream s')
        else fan_out e prefix at s = None"
  proof (cases ?ok)
    case False
    with eff ok0 have "\<not> (\<forall>t\<in>set ts'. task_ok e at t)" by simp
    with fin have "for_each ts' (task_finish e at) s1 = None" by (simp add: adds_def)
    with False show ?thesis by (simp add: fo)
  next
    case True
    with eff ok0 have ok': "\<forall>t\<in>set ts'. task_ok e at t"
      and m: "mset (entries (stream s1)) + sum_list (map (task_entries e at) ts')
             = mset (entries (stream s)) + sum_list (map (task_entries e at) ?ts)"
      and n: "chunksFetched s1 + sum_list (map task_count ts')
             = chunksFetched s + sum_list (map task_count ?ts)"
      and wf: "wf_stream s \<longrightarrow> wf_stream s1"
      by simp_all
    from fin ok' obtain s2 where s2: "for_each ts' (task_finish e at) s1 = Some s2"
      "mset (entries (stream s2)) = mset (entries (stream s1)) + sum_list (map (task_entries e at) ts')"
      "chunksFetched s2 = chunksFetched s1 + sum_list (map task_count ts')"
      "wf_stream s1 \<longrightarrow> wf_stream s2"
      unfolding adds_def by (metis (full_types))
    have "mset (entries (stream s2)) = mset (entries (stream s)) + ?m"
      using s2(2) m by (simp only: m0)
    moreover have "chunksFetched s2 = chunksFetched s + length (map (child prefix) [0..<256])"
      using s2(3) n by (simp only: n0) simp
    ultimately show ?thesis
      using True s2 wf by (simp add: fo)
  qed
qed

lemma sum_list_map_concat:
  fixes g :: "'a \<Rightarrow> 'b::monoid_add"
  shows "sum_list (map g (concat xss)) = sum_list (map (\<lambda>xs. sum_list (map g xs)) xss)"
  by (induction xss) simp_all

lemma adds_fetchChunks:
  "adds (fetchChunks e prefix l at)
     (\<forall>p\<in>set (leaf_prefixes prefix l). leaf_pages e p at None \<noteq> None)
     (sum_list (map (leaf_entries e at) (leaf_prefixes prefix l)))
     (length (leaf_prefixes prefix l))"
proof (induction e prefix l at "undefined :: fetch_state" rule: fetchChunks.induct)
  case (1 e prefix l at)
  show ?case
  proof (cases "l \<le> 0")
    case True
    have "fetchChunks e prefix l at = fetch_leaf e prefix at"
      using True by (intro ext, subst fetchChunks.simps) simp
    moreover have "leaf_prefixes prefix l = [prefix]"
      using True by (subst leaf_prefixes.simps) simp
    ultimately show ?thesis
      using adds_leaf [of e prefix at] by simp
  next
    case False
    show ?thesis
    proof (cases "QUICK_MODE e \<and> l = 1")
      case True
      have "fetchChunks e prefix l at = fan_out e prefix at"
        using True by (intro ext, subst fetchChunks.simps) simp
      then show ?thesis
        using adds_fan_out [of e prefix at] True by (simp only: leaf_prefixes_one)
    next
      case nq: False
      let ?sub = "\<lambda>i. leaf_prefixes (child prefix i) (l - 1)"
      have f: "fetchChunks e prefix l at =
            for_each [0..<256] (\<lambda>i. fetchChunks e (child prefix i) (l - 1) at)"
        using False nq by (intro ext, subst fetchChunks.simps) auto
      have lp: "leaf_prefixes prefix l = concat (map ?sub [0..<256])"
        using False by (subst leaf_prefixes.simps) simp
      have "adds (for_each [0..<256] (\<lambda>i. fetchChunks e (child prefix i) (l - 1) at))
          (\<forall>i\<in>set [0..<256]. \<forall>p\<in>set (?sub i). leaf_pages e p at None \<noteq> None)
          (sum_list (map (\<lambda>i. sum_list (map (leaf_entries e at) (?sub i))) [0..<256]))
          (sum_list (map (\<lambda>i. length (?sub i)) [0..<256]))"
        by (rule adds_for_each) (rule 1 [OF False nq])
      moreover have "(\<forall>i\<in>set [0..<256]. \<forall>p\<in>set (?sub i). leaf_pages e p at None \<noteq> None)
          = (\<forall>p\<in>set (leaf_prefixes prefix l). leaf_pages e p at None \<noteq> None)"
        by (simp only: lp set_concat set_map) blast
      moreover have "sum_list (map (\<lambda>i. sum_list (map (leaf_entries e at) (?sub i))) [0..<256])
          = sum_list (map (leaf_entries e at) (leaf_prefixes prefix l))"
        by (simp only: lp sum_list_map_concat map_map comp_def)
      moreover have "sum_list (map (\<lambda>i. length (?sub i)) [0..<256]) = length (leaf_prefixes prefix l)"
        by (simp only: lp length_concat map_map comp_def)
      ultimately show ?thesis
        by (simp only: f)
    qed
  qed
qed

lemma leaf_entries_cong:
  assumes "pageSize e' = pageSize e" "state_getKeysPaged e' = state_getKeysPaged e"
    "state_getStorage e' = state_getStorage e"
  shows "leaf_entries e' at p = leaf_entries e at p"
proof -
  have "pairs_of e' at pgs = pairs_of e at pgs" for pgs
    by (simp add: pairs_of_def assms(3))
  then show ?thesis
    by (simp add: leaf_entries_def leaf_pages_cong [OF assms(1,2)] cong: option.case_cong)
qed

lemma adds_None:
  assumes "adds f ok m n"
  shows "f s = None \<longleftrightarrow> \<not> ok"
proof -
  from assms have "if ok then (\<exists>s'. f s = Some s'
                \<and> mset (entries (stream s')) = mset (entries (stream s)) + m
                \<and> chunksFetched s' = chunksFetched s + n
                \<and> (wf_stream s \<longrightarrow> wf_stream s')) else f s = None"
    unfolding adds_def by (rule spec)
  then show ?thesis by (cases ok) auto
qed

lemma adds_Some:
  assumes "adds f ok m n" and "f s = Some s'"
  shows "mset (entries (stream s')) = mset (entries (stream s)) + m
      \<and> chunksFetched s' = chunksFetched s + n
      \<and> (wf_stream s \<longrightarrow> wf_stream s')"
proof -
  from assms(1) have "if ok then (\<exists>s'. f s = Some s'
                \<and> mset (entries (stream s')) = mset (entries (stream s)) + m
                \<and> chunksFetched s' = chunksFetched s + n
                \<and> (wf_stream s \<longrightarrow> wf_stream s')) else f s = None"
    unfolding adds_def by (rule spec)
  with assms(2) show ?thesis by (cases ok) auto
qed

lemma fetchChunks_ends_iff:
  "fetchChunks e prefix l at s \<noteq> None \<longleftrightarrow>
     (\<forall>p\<in>set (leaf_prefixes prefix l). leaf_pages e p at None \<noteq> None)"
  using adds_None [OF adds_fetchChunks, of e prefix l at s] by auto

lemma fetchChunks_result:
  assumes "fetchChunks e prefix l at s = Some s'"
  shows "mset (entries (stream s')) =
           mset (entries (stream s)) + sum_list (map (leaf_entries e at) (leaf_prefixes prefix l))"
    and "chunksFetched s' = chunksFetched s + 256 ^ nat l"
    and "wf_stream s \<Longrightarrow> wf_stream s'"
  using adds_Some [OF adds_fetchChunks assms]
  by (simp_all add: length_leaf_prefixes)

lemma store_leaf_ends:
  assumes "sorted_wrt (<) all_keys" "1 \<le> pageSize e" "state_getKeysPaged e = store_getKeysPaged all_keys"
  shows "leaf_pages e p at None \<noteq> None"
proof -
  have "sorted_wrt (<) (keys_under all_keys p)"
    using assms(1) by (simp add: keys_under_def sorted_wrt_filter)
  with store_pages [OF assms(3,2), of p "[]" "keys_under all_keys p" at] show ?thesis
    by auto
qed

lemma store_fetchChunks_ends:
  assumes "sorted_wrt (<) all_keys" "1 \<le> pageSize e" "state_getKeysPaged e = store_getKeysPaged all_keys"
  shows "fetchChunks e prefix l at s \<noteq> None"
  using fetchChunks_ends_iff [of e prefix l at s] store_leaf_ends [OF assms] by blast

lemma wf_initial:
  "wf_stream \<lparr>stream = [LBracket], separator = False, chunksFetched = 0, rpc_log = log\<rparr>"
  unfolding wf_stream_def by (intro exI [of _ "[]"]) (simp add: tokens_of_def)

lemma acquisition_fresh:
  assumes "d storagePath = None"
  shows "acquisition e l d log =
     map_option (\<lambda>s. (d(storagePath \<mapsto> Snapshot (stream s @ [RBracket])), rpc_log s))
       (fetchChunks e ''0x'' l (chain_getBlockHash e)
          \<lparr>stream = [LBracket], separator = False, chunksFetched = 0, rpc_log = log @ [GetBlockHash]\<rparr>)"
  using assms by (simp add: acquisition_def Let_def split: option.splits)

lemma acquisition_snapshot:
  assumes "d storagePath = None" and "acquisition e l d log = Some (d', log')"
  shows "\<exists>es. read_storage d' storagePath = Inr es
     \<and> mset es = sum_list (map (leaf_entries e (chain_getBlockHash e)) (leaf_prefixes ''0x'' l))"
proof -
  let ?s0 = "\<lparr>stream = [LBracket], separator = False, chunksFetched = 0, rpc_log = log @ [GetBlockHash]\<rparr>"
  from assms obtain s where
    s: "fetchChunks e ''0x'' l (chain_getBlockHash e) ?s0 = Some s"
    and d': "d' = d(storagePath \<mapsto> Snapshot (stream s @ [RBracket]))"
    by (auto simp: acquisition_fresh)
  from fetchChunks_result [OF s] wf_initial have
    m: "mset (entries (stream s)) = sum_list (map (leaf_entries e (chain_getBlockHash e)) (leaf_prefixes ''0x'' l))"
    and wf: "wf_stream s"
    by simp_all
  from wf have "read_storage d' storagePath = Inr (entries (stream s))"
    by (simp add: d' read_storage_def wf_stream_parse)
  with m show ?thesis by blast
qed

lemma modes_ends:
  assumes "pageSize e2 = pageSize e1" "state_getKeysPaged e2 = state_getKeysPaged e1"
  shows "fetchChunks e1 prefix l at s = None \<longleftrightarrow> fetchChunks e2 prefix l at s' = None"
proof -
  have pages: "leaf_pages e2 p at None = leaf_pages e1 p at None" for p
    using assms by (rule leaf_pages_cong)
  have "fetchChunks e2 prefix l at s' \<noteq> None \<longleftrightarrow>
      (\<forall>p\<in>set (leaf_prefixes prefix l). leaf_pages e1 p at None \<noteq> None)"
    by (simp only: fetchChunks_ends_iff pages)
  also have "\<dots> \<longleftrightarrow> fetchChunks e1 prefix l at s \<noteq> None"
    by (simp only: fetchChunks_ends_iff)
  finally show ?thesis by auto
qed

lemma modes_result:
  assumes "pageSize e2 = pageSize e1" "state_getKeysPaged e2 = state_getKeysPaged e1"
    "state_getStorage e2 = state_getStorage e1"
    and "fetchChunks e1 prefix l at s1 = Some t1" "fetchChunks e2 prefix l at s2 = Some t2"
    and "mset (entries (stream s1)) = mset (entries (stream s2))"
  shows "mset (entries (stream t1)) = mset (entries (stream t2))"
proof -
  have ents: "leaf_entries e2 at = leaf_entries e1 at"
    by (rule ext) (rule leaf_entries_cong [OF assms(1-3)])
  show ?thesis
    using fetchChunks_result(1) [OF assms(4)] fetchChunks_result(1) [OF assms(5)] assms(6)
    by (simp only: ents)
qed

lemma modes_snapshot:
  assumes "pageSize e2 = pageSize e1" "state_getKeysPaged e2 = state_getKeysPaged e1"
    "state_getStorage e2 = state_getStorage e1"
    and h: "chain_getBlockHash e2 = chain_getBlockHash e1" and d: "d storagePath = None"
    and r1: "acquisition e1 l d log1 = Some (d1, r1)"
    and r2: "acquisition e2 l d log2 = Some (d2, r2)"
  shows "\<exists>es1 es2. read_storage d1 storagePath = Inr es1 \<and> read_storage d2 storagePath = Inr es2
                    \<and> mset es1 = mset es2 \<and> set es1 = set es2"
proof -
  have ents: "leaf_entries e2 at = leaf_entries e1 at" for at
    by (rule ext) (rule leaf_entries_cong [OF assms(1-3)])
  from acquisition_snapshot [OF d r1] obtain es1 where
    1: "read_storage d1 storagePath = Inr es1"
       "mset es1 = sum_list (map (leaf_entries e1 (chain_getBlockHash e1)) (leaf_prefixes ''0x'' l))"
    by blast
  from acquisition_snapshot [OF d r2] obtain es2 where
    2: "read_storage d2 storagePath = Inr es2"
       "mset es2 = sum_list (map (leaf_entries e2 (chain_getBlockHash e2)) (leaf_prefixes ''0x'' l))"
    by blast
  from 1(2) 2(2) have eq: "mset es1 = mset es2"
    by (simp only: ents h)
  then have "set es1 = set es2" by (rule mset_eq_setD)
  with 1(1) 2(1) eq show ?thesis by blast
qed

lemma modes_acquisition_ends:
  assumes "pageSize e2 = pageSize e1" "state_getKeysPaged e2 = state_getKeysPaged e1"
    and h: "chain_getBlockHash e2 = chain_getBlockHash e1" and d: "d storagePath = None"
  shows "acquisition e1 l d log1 = None \<longleftrightarrow> acquisition e2 l d log2 = None"
  using modes_ends [OF assms(1,2), of "''0x''" l "chain_getBlockHash e1"]
  by (simp add: acquisition_fresh d h)

subsection \<open>The leaves and the keys under them\<close>


lemma example_ends: "fetchChunks example_env prefix l at s \<noteq> None"
  by (rule store_fetchChunks_ends [OF example_sorted _ example_store]) (simp add: example_env_def)




subsection \<open>Sequential and concurrent traversal\<close>

lemma quick_env_store:
  "pageSize quick_env = pageSize example_env"
  "state_getKeysPaged quick_env = state_getKeysPaged example_env"
  "state_getStorage quick_env = state_getStorage example_env"
  "chain_getBlockHash quick_env = chain_getBlockHash example_env"
  "QUICK_MODE quick_env" "\<not> QUICK_MODE example_env"
  by (simp_all add: quick_env_def example_env_def)

lemma quick_ends: "fetchChunks quick_env prefix l at s \<noteq> None"
  by (rule store_fetchChunks_ends [OF example_sorted])
    (simp_all add: quick_env_def example_env_def)

text \<open>
  C4. Two nodes that answer every listing and every value request alike, with the
  same page size, whatever their modes, the order in which their value requests
  complete and the interleaving of their concurrent leaves: the traversal of one ends
  exactly when the traversal of the other does, and both add the same pairs, with
  the same multiplicities, to the stream. Started without a snapshot on disk and
  with the same block hash, the two acquisitions end together and leave snapshots
  that parse to the same pairs; only their order may differ.
\<close>

theorem snapshot_same_in_both_modes:
  "pageSize e2 = pageSize e1 \<and> state_getKeysPaged e2 = state_getKeysPaged e1
     \<and> state_getStorage e2 = state_getStorage e1 \<longrightarrow>
   (fetchChunks e1 prefix l at s1 = None \<longleftrightarrow> fetchChunks e2 prefix l at s2 = None)
   \<and> (\<forall>t1 t2. fetchChunks e1 prefix l at s1 = Some t1 \<and> fetchChunks e2 prefix l at s2 = Some t2
        \<and> mset (entries (stream s1)) = mset (entries (stream s2))
        \<longrightarrow> mset (entries (stream t1)) = mset (entries (stream t2)))
   \<and> (chain_getBlockHash e2 = chain_getBlockHash e1 \<and> d storagePath = None \<longrightarrow>
        (acquisition e1 l d log1 = None \<longleftrightarrow> acquisition e2 l d log2 = None)
        \<and> (\<forall>d1 d2 r1 r2. acquisition e1 l d log1 = Some (d1, r1) \<and> acquisition e2 l d log2 = Some (d2, r2)
             \<longrightarrow> (\<exists>es1 es2. read_storage d1 storagePath = Inr es1 \<and> read_storage d2 storagePath = Inr es2
                    \<and> mset es1 = mset es2 \<and> set es1 = set es2)))"
proof (intro impI conjI allI; (elim conjE)?)
  assume a: "pageSize e2 = pageSize e1" "state_getKeysPaged e2 = state_getKeysPaged e1"
     "state_getStorage e2 = state_getStorage e1"
  show "fetchChunks e1 prefix l at s1 = None \<longleftrightarrow> fetchChunks e2 prefix l at s2 = None"
    using a(1,2) by (rule modes_ends)
  show "mset (entries (stream t1)) = mset (entries (stream t2))"
    if "fetchChunks e1 prefix l at s1 = Some t1" "fetchChunks e2 prefix l at s2 = Some t2"
      "mset (entries (stream s1)) = mset (entries (stream s2))" for t1 t2
    using a that by (rule modes_result)
  show "acquisition e1 l d log1 = None \<longleftrightarrow> acquisition e2 l d log2 = None"
    if "chain_getBlockHash e2 = chain_getBlockHash e1" "d storagePath = None"
    using a(1,2) that by (rule modes_acquisition_ends)
  show "\<exists>es1 es2. read_storage d1 storagePath = Inr es1 \<and> read_storage d2 storagePath = Inr es2
                    \<and> mset es1 = mset es2 \<and> set es1 = set es2"
    if "chain_getBlockHash e2 = chain_getBlockHash e1" "d storagePath = None"
      "acquisition e1 l d log1 = Some (d1, r1)" "acquisition e2 l d log2 = Some (d2, r2)"
    for d1 d2 r1 r2
    using a that by (rule modes_snapshot)
qed

theorem snapshot_same_in_both_modes_witness:
  "acquisition example_env 1 Map.empty [] \<noteq> None \<and> acquisition quick_env 1 Map.empty [] \<noteq> None
   \<and> \<not> isl (read_storage (fst (the (acquisition example_env 1 Map.empty []))) storagePath)
   \<and> \<not> isl (read_storage (fst (the (acquisition quick_env 1 Map.empty []))) storagePath)
   \<and> set (projr (read_storage (fst (the (acquisition example_env 1 Map.empty []))) storagePath))
       = set (projr (read_storage (fst (the (acquisition quick_env 1 Map.empty []))) storagePath))
   \<and> \<not> QUICK_MODE example_env \<and> QUICK_MODE quick_env"
proof -
  let ?a1 = "acquisition example_env 1 Map.empty []"
  let ?a2 = "acquisition quick_env 1 Map.empty []"
  have e1: "?a1 \<noteq> None"
    using example_ends [of "''0x''" 1 "chain_getBlockHash example_env"]
    by (simp add: acquisition_fresh)
  have e2: "?a2 \<noteq> None"
    using quick_ends [of "''0x''" 1 "chain_getBlockHash quick_env"]
    by (simp add: acquisition_fresh)
  from e1 have r1: "?a1 = Some (fst (the ?a1), snd (the ?a1))" by auto
  from e2 have r2: "?a2 = Some (fst (the ?a2), snd (the ?a2))" by auto
  have hyp: "pageSize quick_env = pageSize example_env
     \<and> state_getKeysPaged quick_env = state_getKeysPaged example_env
     \<and> state_getStorage quick_env = state_getStorage example_env"
    by (simp add: quick_env_store)
  have hyp2: "chain_getBlockHash quick_env = chain_getBlockHash example_env
     \<and> Map.empty storagePath = None"
    by (simp add: quick_env_store)
  note inst = snapshot_same_in_both_modes [where ?e1.0 = example_env and ?e2.0 = quick_env
      and l = 1 and d = Map.empty and ?log1.0 = "[]" and ?log2.0 = "[]",
      THEN mp, OF hyp, THEN conjunct2, THEN conjunct2, THEN mp, OF hyp2, THEN conjunct2,
      THEN spec, THEN spec, THEN spec, THEN spec, THEN mp, OF conjI, OF r1 r2]
  then obtain es1 es2 where
    "read_storage (fst (the ?a1)) storagePath = Inr es1"
    "read_storage (fst (the ?a2)) storagePath = Inr es2" "set es1 = set es2"
    by blast
  with e1 e2 show ?thesis by (simp add: quick_env_store)
qed

subsection \<open>A snapshot already on disk\<close>

lemma merge_parachain_storage:
  assumes "merge_parachain pp allowed excluded st d = Inr (d1, pn)" and "read_storage d p = Inr es"
  shows "read_storage d1 p = Inr es"
proof (cases "p = pp")
  case False
  with merge_parachain_frame [OF assms(1), of p] assms(2) show ?thesis
    by (simp add: read_storage_def)
next
  case True
  with assms show ?thesis
    by (auto simp: merge_parachain_def read_storage_def parse_stringify
        split: if_splits option.splits content.splits)
qed

lemma main_cached_ends:
  assumes "d storagePath \<noteq> None"
  shows "main w d \<noteq> None"
  using assms
  by (simp add: main_def Let_def acquisition_cached paths_distinct
      split: option.splits sum.splits prod.splits)

lemma main_cached_requests:
  assumes "d storagePath \<noteq> None" and "main w d = Some (Inr r)"
  shows "set (requests r) \<subseteq> {GetMetadata}"
  using assms
  by (auto simp: main_def Let_def acquisition_cached paths_distinct
      split: if_splits option.splits sum.splits prod.splits)

lemma main_cached_success:
  assumes c: "d storagePath \<noteq> None" and m: "main w d = Some (Inr r)" and x: "exit_code r = 0"
  shows "requests r = [GetMetadata]
     \<and> (\<exists>st hex original forked.
           read_storage d storagePath = Inr st
         \<and> read_storage (disk_after r) storagePath = Inr st
         \<and> build_spec w (build_spec_args (originalChain w) []) = Some original
         \<and> build_spec w (build_spec_args (forkChain w) [''--dev'']) = Some forked
         \<and> disk_after r forkedSpecPath =
             Some (Spec (final_spec (sessionStartBlock_key w) hex
                (populate_prefixes (xxhashAsHex w) (pallets w) prefixes) skippedPrefixes
                st original forked)))
     \<and> (parachainSpecPath w \<noteq> storagePath \<longrightarrow> disk_after r storagePath = d storagePath)"
proof -
  from main_success [OF m x] obtain wasm d2 log original forked mm where
    w: "d wasmPath = Some wasm"
    and a: "acquisition (node w) (chunksLevel w)
             (d(hexPath \<mapsto> Text (hexdump (content_bytes (encoding w) wasm)))) [] = Some (d2, log)"
    and o: "build_spec w (build_spec_args (originalChain w) []) = Some original"
    and f: "build_spec w (build_spec_args (forkChain w) [''--dev'']) = Some forked"
    and mg: "merge (parachainSpecPath w) (sessionStartBlock_key w)
             (populate_prefixes (xxhashAsHex w) (pallets w) prefixes) skippedPrefixes
             (d2(originalSpecPath \<mapsto> Spec original, forkedSpecPath \<mapsto> Spec forked)) = Inr mm"
    and r: "r = \<lparr>exit_code = 0, disk_after = files mm, requests = log @ [GetMetadata]\<rparr>"
    by blast
  let ?d1 = "d(hexPath \<mapsto> Text (hexdump (content_bytes (encoding w) wasm)))"
  let ?d3 = "d2(originalSpecPath \<mapsto> Spec original, forkedSpecPath \<mapsto> Spec forked)"
  have "?d1 storagePath \<noteq> None" using c by (simp add: paths_distinct)
  hence "acquisition (node w) (chunksLevel w) ?d1 [] = Some (?d1, [])"
    by (simp add: acquisition_def)
  with a have d2: "d2 = ?d1" and log: "log = []" by simp_all
  have d3: "?d3 storagePath = d storagePath" by (simp add: d2 paths_distinct)
  from merge_Inr [OF mg] obtain st original' forked' d4 pn hex where
    st: "read_storage ?d3 storagePath = Inr st"
    and o': "?d3 originalSpecPath = Some (Spec original')"
    and f': "?d3 forkedSpecPath = Some (Spec forked')"
    and mp: "merge_parachain (parachainSpecPath w)
        (populate_prefixes (xxhashAsHex w) (pallets w) prefixes) skippedPrefixes st ?d3 = Inr (d4, pn)"
    and mm: "mm = \<lparr>files = d4(forkedSpecPath \<mapsto> Spec (final_spec (sessionStartBlock_key w) hex
          (populate_prefixes (xxhashAsHex w) (pallets w) prefixes) skippedPrefixes st original' forked')),
        migrated_storages = length (filter (selected
          (populate_prefixes (xxhashAsHex w) (pallets w) prefixes) skippedPrefixes) st),
        paraMigrated = pn\<rparr>"
    by blast
  from o' f' have of: "original' = original" "forked' = forked" by (simp_all add: paths_distinct)
  have st0: "read_storage d storagePath = Inr st"
    using st d3 by (simp add: read_storage_def)
  have d4: "read_storage d4 storagePath = Inr st"
    using mp st by (rule merge_parachain_storage)
  have st1: "read_storage (disk_after r) storagePath = Inr st"
    using d4 by (simp add: r mm read_storage_def paths_distinct)
  have frame: "disk_after r storagePath = d storagePath" if "parachainSpecPath w \<noteq> storagePath"
    using merge_parachain_frame [OF mp, of storagePath] that d3
    by (simp add: r mm paths_distinct)
  have spec: "disk_after r forkedSpecPath =
             Some (Spec (final_spec (sessionStartBlock_key w) hex
                (populate_prefixes (xxhashAsHex w) (pallets w) prefixes) skippedPrefixes
                st original forked))"
    by (simp add: r mm of)
  have "requests r = [GetMetadata]" by (simp add: r log)
  with st0 st1 o f spec frame show ?thesis by blast
qed

text \<open>
  C6. When the snapshot file exists, the acquisition returns the disk and the log of
  requests as they are: no block hash, no listing and no value is requested. The run
  then ends, and the only request it can make is the one for the metadata. When it
  succeeds, the entries merged into the forked specification are those read from the
  file that was there, the file still reads to the same entries, and it is the same
  file unless \<^verbatim>\<open>PARACHAIN\<close> names it.
\<close>

theorem cached_snapshot_is_reused:
  "d storagePath \<noteq> None \<longrightarrow>
     acquisition e l d log = Some (d, log)
   \<and> main w d \<noteq> None
   \<and> (\<forall>r. main w d = Some (Inr r) \<longrightarrow> set (requests r) \<subseteq> {GetMetadata})
   \<and> (\<forall>r. main w d = Some (Inr r) \<and> exit_code r = 0 \<longrightarrow>
        requests r = [GetMetadata]
        \<and> (\<exists>st hex original forked.
              read_storage d storagePath = Inr st
            \<and> read_storage (disk_after r) storagePath = Inr st
            \<and> build_spec w (build_spec_args (originalChain w) []) = Some original
            \<and> build_spec w (build_spec_args (forkChain w) [''--dev'']) = Some forked
            \<and> disk_after r forkedSpecPath =
                Some (Spec (final_spec (sessionStartBlock_key w) hex
                   (populate_prefixes (xxhashAsHex w) (pallets w) prefixes) skippedPrefixes
                   st original forked)))
        \<and> (parachainSpecPath w \<noteq> storagePath \<longrightarrow> disk_after r storagePath = d storagePath))"
proof (intro impI conjI allI)
  assume c: "d storagePath \<noteq> None"
  show "acquisition e l d log = Some (d, log)" using c by (rule acquisition_cached)
  show "main w d \<noteq> None" using c by (rule main_cached_ends)
  show "set (requests r) \<subseteq> {GetMetadata}" if "main w d = Some (Inr r)" for r
    using c that by (rule main_cached_requests)
  fix r assume m: "main w d = Some (Inr r) \<and> exit_code r = 0"
  note all = main_cached_success [OF c conjunct1 [OF m] conjunct2 [OF m]]
  show "requests r = [GetMetadata]" using all by (rule conjunct1)
  show "\<exists>st hex original forked.
              read_storage d storagePath = Inr st
            \<and> read_storage (disk_after r) storagePath = Inr st
            \<and> build_spec w (build_spec_args (originalChain w) []) = Some original
            \<and> build_spec w (build_spec_args (forkChain w) [''--dev'']) = Some forked
            \<and> disk_after r forkedSpecPath =
                Some (Spec (final_spec (sessionStartBlock_key w) hex
                   (populate_prefixes (xxhashAsHex w) (pallets w) prefixes) skippedPrefixes
                   st original forked))"
    using all by (rule conjunct2 [THEN conjunct1])
  show "disk_after r storagePath = d storagePath" if "parachainSpecPath w \<noteq> storagePath"
    using all that by blast
qed

theorem cached_snapshot_is_reused_witness:
  "example_disk storagePath = Some (Snapshot example_snapshot)
   \<and> acquisition example_env 1 example_disk [] = Some (example_disk, [])
   \<and> requests (projr (the (main example_world example_disk))) = [GetMetadata]
   \<and> disk_after (projr (the (main example_world example_disk))) storagePath
       = Some (Snapshot example_snapshot)"
proof -
  let ?r = "projr (the (main example_world example_disk))"
  have c: "example_disk storagePath = Some (Snapshot example_snapshot)"
    by (simp add: example_disk_def path_defs)
  hence c': "example_disk storagePath \<noteq> None" by simp
  have m: "main example_world example_disk = Some (Inr ?r) \<and> exit_code ?r = 0"
    using example_main by (rule result_collapse)
  have p: "parachainSpecPath example_world \<noteq> storagePath"
    by (simp add: example_world_def path_defs)
  note inst = cached_snapshot_is_reused [where d = example_disk and e = example_env and l = 1
      and log = "[]" and w = example_world, THEN mp, OF c']
  note succ = inst [THEN conjunct2, THEN conjunct2, THEN conjunct2, THEN spec, THEN mp, OF m]
  have 1: "acquisition example_env 1 example_disk [] = Some (example_disk, [])"
    using inst by (rule conjunct1)
  have 2: "requests ?r = [GetMetadata]"
    using succ by (rule conjunct1)
  have 3: "disk_after ?r storagePath = example_disk storagePath"
    using succ [THEN conjunct2, THEN conjunct2, THEN mp, OF p] .
  from c 1 2 3 show ?thesis by simp
qed

end
